theory Spec2Isabelle
  imports Complex_Main "HOL-Library.Sublist"
begin

section \<open>JavaScript strings and identity keys\<close>

text \<open>
  A JavaScript string is modelled as a \<open>string\<close>: ASCII code units are the characters
  themselves and a character outside ASCII is carried as the bytes of its UTF-8 encoding.
  A nullable string (\<^verbatim>\<open>null\<close>, \<^verbatim>\<open>undefined\<close>) is a \<open>string option\<close>.

  \<^verbatim>\<open>String.prototype.toLowerCase\<close> maps letters of every script, some of them to several
  characters and one (the Greek capital sigma) depending on its neighbours. It is a
  parameter \<open>lc\<close> of every function that calls it: any function from strings to strings.
  A theorem that needs a property of it says so.

  \<open>lowerASCII\<close> lower-cases the letters A to Z only. It is what the flag \<^verbatim>\<open>i\<close> of a regular
  expression without the flag \<^verbatim>\<open>u\<close> does to an ASCII pattern, and it is \<^verbatim>\<open>toLowerCase\<close> on
  strings of ASCII characters, so it stands for \<open>lc\<close> in the scenarios.
\<close>

definition toLowerChar :: "char \<Rightarrow> char" where
  "toLowerChar c =
     (let n = (of_char c :: nat) in if 65 \<le> n \<and> n \<le> 90 then char_of (n + 32) else c)"

definition lowerASCII :: "string \<Rightarrow> string" where
  "lowerASCII s = map toLowerChar s"

text \<open>
  The white space and line terminators that \<^verbatim>\<open>String.prototype.trim\<close> removes, as
  UTF-8 byte sequences: TAB, LF, VT, FF, CR, SP, U+00A0, U+1680, U+2000 to U+200A,
  U+2028, U+2029, U+202F, U+205F, U+3000 and U+FEFF.
\<close>

definition js_whitespace :: "string list" where
  "js_whitespace =
     [[CHR 0x09], [CHR 0x0A], [CHR 0x0B], [CHR 0x0C], [CHR 0x0D], [CHR 0x20],
      [CHR 0xC2, CHR 0xA0], [CHR 0xE1, CHR 0x9A, CHR 0x80],
      [CHR 0xE2, CHR 0x80, CHR 0x80], [CHR 0xE2, CHR 0x80, CHR 0x81],
      [CHR 0xE2, CHR 0x80, CHR 0x82], [CHR 0xE2, CHR 0x80, CHR 0x83],
      [CHR 0xE2, CHR 0x80, CHR 0x84], [CHR 0xE2, CHR 0x80, CHR 0x85],
      [CHR 0xE2, CHR 0x80, CHR 0x86], [CHR 0xE2, CHR 0x80, CHR 0x87],
      [CHR 0xE2, CHR 0x80, CHR 0x88], [CHR 0xE2, CHR 0x80, CHR 0x89],
      [CHR 0xE2, CHR 0x80, CHR 0x8A], [CHR 0xE2, CHR 0x80, CHR 0xA8],
      [CHR 0xE2, CHR 0x80, CHR 0xA9], [CHR 0xE2, CHR 0x80, CHR 0xAF],
      [CHR 0xE2, CHR 0x81, CHR 0x9F], [CHR 0xE3, CHR 0x80, CHR 0x80],
      [CHR 0xEF, CHR 0xBB, CHR 0xBF]]"

text \<open>
  \<open>ws_prefix_len ws s\<close> is the length of the first sequence of \<open>ws\<close> that \<open>s\<close> starts
  with, or 0 when there is none.
\<close>

fun ws_prefix_len :: "string list \<Rightarrow> string \<Rightarrow> nat" where
  "ws_prefix_len [] s = 0"
| "ws_prefix_len (w # ws) s =
     (if w \<noteq> [] \<and> prefix w s then length w else ws_prefix_len ws s)"

function trimWith :: "string list \<Rightarrow> string \<Rightarrow> string" where
  "trimWith ws s =
     (if ws_prefix_len ws s = 0 \<or> s = [] then s
      else trimWith ws (drop (ws_prefix_len ws s) s))"
  by pat_completeness auto
termination
  by (relation "measure (\<lambda>(ws, s). length s)") auto

declare trimWith.simps [simp del]

definition trimStart :: "string \<Rightarrow> string" where
  "trimStart s = trimWith js_whitespace s"

definition trimEnd :: "string \<Rightarrow> string" where
  "trimEnd s = rev (trimWith (map rev js_whitespace) (rev s))"

definition trim :: "string \<Rightarrow> string" where
  "trim s = trimEnd (trimStart s)"

text \<open>\<^verbatim>\<open>x.replace(/^file:\/\//i, "")\<close>: drops a leading \<^verbatim>\<open>file://\<close> in any letter case.\<close>

definition has_file_prefix :: "string \<Rightarrow> bool" where
  "has_file_prefix s = (lowerASCII (take 7 s) = ''file://'')"

definition strip_file_prefix :: "string \<Rightarrow> string" where
  "strip_file_prefix s = (if has_file_prefix s then drop 7 s else s)"

text \<open>
  \<^verbatim>\<open>decodeURIComponent\<close>. First every \<^verbatim>\<open>%XX\<close> escape is read (a \<^verbatim>\<open>%\<close> that is not
  followed by two hexadecimal digits is a \<^verbatim>\<open>URIError\<close>); then the escaped octets
  must form well-formed UTF-8 (an octet of 0x80 or more starts a sequence whose
  continuation octets must all be escapes, in the ranges of the Unicode standard), or
  the call throws. \<open>None\<close> is the thrown \<^verbatim>\<open>URIError\<close>.
\<close>

definition hexval :: "char \<Rightarrow> nat option" where
  "hexval c =
     (let n = (of_char c :: nat) in
      if 48 \<le> n \<and> n \<le> 57 then Some (n - 48)
      else if 65 \<le> n \<and> n \<le> 70 then Some (n - 55)
      else if 97 \<le> n \<and> n \<le> 102 then Some (n - 87)
      else None)"

datatype uri_token = Lit char | Esc nat

fun uri_tokens :: "string \<Rightarrow> uri_token list option" where
  "uri_tokens [] = Some []"
| "uri_tokens (c # cs) =
     (if c = CHR ''%'' then
        (case cs of
           h1 # h2 # rest \<Rightarrow>
             (case (hexval h1, hexval h2) of
                (Some a, Some b) \<Rightarrow> map_option (\<lambda>ts. Esc (16 * a + b) # ts) (uri_tokens rest)
              | _ \<Rightarrow> None)
         | _ \<Rightarrow> None)
      else map_option (\<lambda>ts. Lit c # ts) (uri_tokens cs))"

text \<open>
  \<open>utf8_octets n lo hi ts\<close>: \<open>n\<close> continuation octets are still due, the next one in the
  range \<open>lo..hi\<close>.
\<close>

fun utf8_octets :: "nat \<Rightarrow> nat \<Rightarrow> nat \<Rightarrow> uri_token list \<Rightarrow> string option" where
  "utf8_octets n lo hi [] = (if n = 0 then Some [] else None)"
| "utf8_octets n lo hi (Lit c # ts) =
     (if n = 0 then map_option (\<lambda>r. c # r) (utf8_octets 0 0 0 ts) else None)"
| "utf8_octets n lo hi (Esc b # ts) =
     (if n > 0 then
        (if lo \<le> b \<and> b \<le> hi
         then map_option (\<lambda>r. char_of b # r) (utf8_octets (n - 1) 0x80 0xBF ts)
         else None)
      else if b < 0x80 then map_option (\<lambda>r. char_of b # r) (utf8_octets 0 0 0 ts)
      else if 0xC2 \<le> b \<and> b \<le> 0xDF
        then map_option (\<lambda>r. char_of b # r) (utf8_octets 1 0x80 0xBF ts)
      else if b = 0xE0 then map_option (\<lambda>r. char_of b # r) (utf8_octets 2 0xA0 0xBF ts)
      else if b = 0xED then map_option (\<lambda>r. char_of b # r) (utf8_octets 2 0x80 0x9F ts)
      else if 0xE1 \<le> b \<and> b \<le> 0xEF
        then map_option (\<lambda>r. char_of b # r) (utf8_octets 2 0x80 0xBF ts)
      else if b = 0xF0 then map_option (\<lambda>r. char_of b # r) (utf8_octets 3 0x90 0xBF ts)
      else if 0xF1 \<le> b \<and> b \<le> 0xF3
        then map_option (\<lambda>r. char_of b # r) (utf8_octets 3 0x80 0xBF ts)
      else if b = 0xF4 then map_option (\<lambda>r. char_of b # r) (utf8_octets 3 0x80 0x8F ts)
      else None)"

text \<open>A character map applied to the literal characters of a token list.\<close>

fun map_tok :: "(char \<Rightarrow> char) \<Rightarrow> uri_token \<Rightarrow> uri_token" where
  "map_tok f (Lit c) = Lit (f c)"
| "map_tok f (Esc b) = Esc b"

definition decodeURIComponent :: "string \<Rightarrow> string option" where
  "decodeURIComponent s =
     (case uri_tokens s of None \<Rightarrow> None | Some ts \<Rightarrow> utf8_octets 0 0 0 ts)"

definition backslash_to_slash :: "char \<Rightarrow> char" where
  "backslash_to_slash c = (if c = CHR 0x5C then CHR ''/'' else c)"

text \<open>
  \<^verbatim>\<open>norm\<close> (generate.js and the stream route) and \<^verbatim>\<open>normKey\<close> (dj-lib.js) are the same
  function: empty for a falsy argument; otherwise trim, drop \<^verbatim>\<open>file://\<close>, decode once
  (keeping the string when decoding throws), backslashes to slashes, lower case.
\<close>

definition norm' :: "(string \<Rightarrow> string) \<Rightarrow> string \<Rightarrow> string" where
  "norm' lc s =
     (if s = [] then []
      else
        (let x = strip_file_prefix (trim s);
             x' = (case decodeURIComponent x of Some d \<Rightarrow> d | None \<Rightarrow> x)
         in lc (map backslash_to_slash x')))"

definition normKey :: "(string \<Rightarrow> string) \<Rightarrow> string \<Rightarrow> string" where
  "normKey lc s =
     (if s = [] then []
      else
        (let x = trim s;
             x1 = strip_file_prefix x;
             x2 = (case decodeURIComponent x1 of Some d \<Rightarrow> d | None \<Rightarrow> x1);
             x3 = map backslash_to_slash x2
         in lc x3))"

text \<open>
  The string that \<^verbatim>\<open>norm\<close> lower-cases in its last step: its argument trimmed, without
  \<^verbatim>\<open>file://\<close>, decoded once, with slashes for backslashes.
\<close>

definition beforeLowerCase :: "string \<Rightarrow> string" where
  "beforeLowerCase s =
     (let x = strip_file_prefix (trim s);
          x' = (case decodeURIComponent x of Some d \<Rightarrow> d | None \<Rightarrow> x)
      in map backslash_to_slash x')"

text \<open>\<^verbatim>\<open>stripExt\<close>: \<^verbatim>\<open>p.replace(/\.[a-z0-9]+$/i, "")\<close> removes a final extension.\<close>

definition is_alnum :: "char \<Rightarrow> bool" where
  "is_alnum c =
     (let n = (of_char c :: nat) in
      (48 \<le> n \<and> n \<le> 57) \<or> (65 \<le> n \<and> n \<le> 90) \<or> (97 \<le> n \<and> n \<le> 122))"

definition stripExt :: "string \<Rightarrow> string" where
  "stripExt p =
     (let r = rev p; ext = takeWhile is_alnum r; rest = dropWhile is_alnum r
      in case rest of
           [] \<Rightarrow> p
         | d # stem \<Rightarrow> if ext \<noteq> [] \<and> d = CHR ''.'' then rev stem else p)"

definition matchKey :: "(string \<Rightarrow> string) \<Rightarrow> string \<Rightarrow> string" where
  "matchKey lc s = stripExt (norm' lc s)"

text \<open>
  \<^verbatim>\<open>matchKey(id)\<close> for an identity that may be \<^verbatim>\<open>null\<close>: \<^verbatim>\<open>norm(null)\<close> is the empty
  string.
\<close>

fun idKey :: "(string \<Rightarrow> string) \<Rightarrow> string option \<Rightarrow> string" where
  "idKey lc None = stripExt []"
| "idKey lc (Some s) = matchKey lc s"

text \<open>
  What the theorems on case variants ask of \<^verbatim>\<open>toLowerCase\<close>: the empty string stays
  empty; lower-casing twice is lower-casing once; lower-casing commutes with replacing
  backslashes by slashes, with trimming and with dropping a leading \<^verbatim>\<open>file://\<close>; and it
  gives the same string whether or not the ASCII letters were lower-cased before.
\<close>

definition lowerCaseLaws :: "(string \<Rightarrow> string) \<Rightarrow> bool" where
  "lowerCaseLaws lc =
     (lc [] = [] \<and>
      (\<forall>s. lc (lc s) = lc s) \<and>
      (\<forall>s. lc (map backslash_to_slash s) = map backslash_to_slash (lc s)) \<and>
      (\<forall>s. trim (lc s) = lc (trim s)) \<and>
      (\<forall>s. strip_file_prefix (lc s) = lc (strip_file_prefix s)) \<and>
      (\<forall>s. lc (lowerASCII s) = lc s))"

section \<open>Continuity scorer: the Camelot wheel\<close>

text \<open>
  \<^verbatim>\<open>CAMELOT_ORDER\<close> lists the 24 wheel positions, minor (A) ring first.
  A key argument of \<^verbatim>\<open>camelotDistance\<close> is a string or \<^verbatim>\<open>null\<close>; it is modelled
  as a \<open>string option\<close>, with \<open>None\<close> for \<^verbatim>\<open>null\<close>/\<^verbatim>\<open>undefined\<close>.
\<close>

definition CAMELOT_ORDER :: "string list" where
  "CAMELOT_ORDER =
    [''1A'', ''2A'', ''3A'', ''4A'', ''5A'', ''6A'', ''7A'', ''8A'', ''9A'', ''10A'', ''11A'', ''12A'',
     ''1B'', ''2B'', ''3B'', ''4B'', ''5B'', ''6B'', ''7B'', ''8B'', ''9B'', ''10B'', ''11B'', ''12B'']"

text \<open>\<^verbatim>\<open>Array.prototype.indexOf\<close>: the first index holding the value, or \<open>-1\<close>.\<close>

fun indexOf :: "'a list \<Rightarrow> 'a \<Rightarrow> int" where
  "indexOf [] x = -1"
| "indexOf (y # ys) x =
     (if y = x then 0 else (let r = indexOf ys x in if r < 0 then -1 else r + 1))"

text \<open>JavaScript truthiness of a nullable string: \<^verbatim>\<open>null\<close> and \<^verbatim>\<open>""\<close> are falsy.\<close>

fun truthy :: "string option \<Rightarrow> bool" where
  "truthy None = False"
| "truthy (Some s) = (s \<noteq> [])"

definition camelotDistance :: "string option \<Rightarrow> string option \<Rightarrow> int" where
  "camelotDistance k1 k2 =
     (if \<not> truthy k1 \<or> \<not> truthy k2 then 99
      else
        (let i = indexOf CAMELOT_ORDER (the k1);
             j = indexOf CAMELOT_ORDER (the k2)
         in if i < 0 \<or> j < 0 then 99
            else (let diff = \<bar>i - j\<bar> in min diff (24 - diff))))"

section \<open>Duration parsers\<close>

text \<open>
  The value of a duration field. A finite number is a \<open>rat\<close> (the number the double
  denotes); \<open>JNonFinite\<close> stands for \<^verbatim>\<open>NaN\<close> and the infinities, \<open>JOther\<close> for a boolean,
  an array or an object.
\<close>

datatype jsval = JNull | JUndefined | JNum rat | JNonFinite | JStr string | JOther

text \<open>\<^verbatim>\<open>v == null\<close> holds for \<^verbatim>\<open>null\<close> and \<^verbatim>\<open>undefined\<close>.\<close>

fun nullish :: "jsval \<Rightarrow> bool" where
  "nullish JNull = True"
| "nullish JUndefined = True"
| "nullish v = False"

text \<open>\<^verbatim>\<open>Math.round\<close> rounds half up, as \<open>round\<close> does.\<close>

definition Math_round :: "rat \<Rightarrow> rat" where
  "Math_round x = of_int (round x)"

text \<open>
  \<^verbatim>\<open>/^\d+(\.\d+)?$/\<close>: one or more digits, then optionally a dot and one or more digits.
\<close>

definition is_digit :: "char \<Rightarrow> bool" where
  "is_digit c = (let n = (of_char c :: nat) in 48 \<le> n \<and> n \<le> 57)"

definition is_plain_decimal :: "string \<Rightarrow> bool" where
  "is_plain_decimal s =
     (let whole = takeWhile is_digit s; rest = dropWhile is_digit s
      in whole \<noteq> [] \<and>
         (case rest of
            [] \<Rightarrow> True
          | d # ds \<Rightarrow> d = CHR ''.'' \<and> ds \<noteq> [] \<and> list_all is_digit ds))"

text \<open>\<^verbatim>\<open>s.split(":")\<close>.\<close>

fun split_colon :: "string \<Rightarrow> string list" where
  "split_colon [] = [[]]"
| "split_colon (c # cs) =
     (case split_colon cs of
        [] \<Rightarrow> [[c]]
      | p # ps \<Rightarrow> if c = CHR '':'' then [] # p # ps else (c # p) # ps)"

text \<open>
  The string branch shared by the three parsers. The built-ins are parameters:
  \<open>parseFloat\<close> on a plain decimal, and \<open>Number\<close> on a string, with \<open>None\<close> when the
  result is not finite. The result is \<open>None\<close> when the string is in neither format.
\<close>

definition parse_duration_string ::
  "(string \<Rightarrow> rat) \<Rightarrow> (string \<Rightarrow> rat option) \<Rightarrow> string \<Rightarrow> rat option" where
  "parse_duration_string parseFloat Number v =
     (let s = trim v in
      if is_plain_decimal s then Some (Math_round (parseFloat s))
      else
        (let parts = map Number (split_colon s) in
         if list_all (\<lambda>p. p \<noteq> None) parts then
           (case parts of
              [Some a, Some b] \<Rightarrow> Some (a * 60 + b)
            | [Some a, Some b, Some c] \<Rightarrow> Some (a * 3600 + b * 60 + c)
            | _ \<Rightarrow> None)
         else None))"

text \<open>\<^verbatim>\<open>toSeconds\<close> of generate.js: an unreadable value counts as a typical 165 seconds.\<close>

fun toSeconds :: "(string \<Rightarrow> rat) \<Rightarrow> (string \<Rightarrow> rat option) \<Rightarrow> jsval \<Rightarrow> rat" where
  "toSeconds pf nm JNull = 0"
| "toSeconds pf nm JUndefined = 0"
| "toSeconds pf nm (JNum v) = (if v > 6000 then Math_round (v / 1000) else Math_round v)"
| "toSeconds pf nm (JStr s) =
     (case parse_duration_string pf nm s of Some r \<Rightarrow> r | None \<Rightarrow> 165)"
| "toSeconds pf nm v = 165"

text \<open>\<^verbatim>\<open>toSeconds\<close> of dj-lib.js: an unreadable value counts as 0.\<close>

fun toSeconds_lib :: "(string \<Rightarrow> rat) \<Rightarrow> (string \<Rightarrow> rat option) \<Rightarrow> jsval \<Rightarrow> rat" where
  "toSeconds_lib pf nm JNull = 0"
| "toSeconds_lib pf nm JUndefined = 0"
| "toSeconds_lib pf nm (JNum v) = (if v > 6000 then Math_round (v / 1000) else Math_round v)"
| "toSeconds_lib pf nm (JStr s) =
     (case parse_duration_string pf nm s of Some r \<Rightarrow> r | None \<Rightarrow> 0)"
| "toSeconds_lib pf nm v = 0"

text \<open>The duration fields a track object may carry.\<close>

record duration_fields =
  audio_duration :: jsval
  tags_durationSec :: jsval
  format_durationSec :: jsval
  top_durationSec :: jsval
  top_duration :: jsval
  top_durationMs :: jsval
  top_length :: jsval

text \<open>\<^verbatim>\<open>a ?? b\<close> and, on numbers, \<^verbatim>\<open>a || b\<close>.\<close>

definition nullish_or :: "jsval \<Rightarrow> jsval \<Rightarrow> jsval" where
  "nullish_or a b = (if nullish a then b else a)"

definition num_or :: "rat \<Rightarrow> rat \<Rightarrow> rat" where
  "num_or a b = (if a = 0 then b else a)"

text \<open>\<^verbatim>\<open>durationSecSafe\<close>: the first field that is not nullish is the one parsed.\<close>

definition durationSecSafe_value :: "duration_fields \<Rightarrow> jsval" where
  "durationSecSafe_value t =
     nullish_or (tags_durationSec t)
       (nullish_or (format_durationSec t)
          (nullish_or (top_durationSec t)
             (nullish_or (top_duration t)
                (nullish_or (top_durationMs t)
                   (nullish_or (top_length t) JNull)))))"

definition durationSecSafe ::
  "(string \<Rightarrow> rat) \<Rightarrow> (string \<Rightarrow> rat option) \<Rightarrow> duration_fields \<Rightarrow> rat" where
  "durationSecSafe pf nm t =
     (case durationSecSafe_value t of
        JNull \<Rightarrow> 0
      | JUndefined \<Rightarrow> 0
      | JNum v \<Rightarrow> (if v > 6000 then Math_round (v / 1000) else Math_round v)
      | JStr s \<Rightarrow> (case parse_duration_string pf nm s of Some r \<Rightarrow> r | None \<Rightarrow> 0)
      | _ \<Rightarrow> 0)"

text \<open>\<^verbatim>\<open>durationSec\<close> of generate.js and \<^verbatim>\<open>getTrackSeconds\<close> of dj-lib.js.\<close>

definition durationSec ::
  "(string \<Rightarrow> rat) \<Rightarrow> (string \<Rightarrow> rat option) \<Rightarrow> duration_fields \<Rightarrow> rat" where
  "durationSec pf nm t =
     num_or (toSeconds pf nm (audio_duration t))
       (num_or (toSeconds pf nm (format_durationSec t))
          (num_or (toSeconds pf nm (top_duration t))
             (num_or (toSeconds pf nm (top_durationMs t))
                (num_or (toSeconds pf nm (top_length t)) 0))))"

definition getTrackSeconds ::
  "(string \<Rightarrow> rat) \<Rightarrow> (string \<Rightarrow> rat option) \<Rightarrow> duration_fields \<Rightarrow> rat" where
  "getTrackSeconds pf nm t =
     num_or (toSeconds_lib pf nm (audio_duration t))
       (num_or (toSeconds_lib pf nm (top_duration t))
          (num_or (toSeconds_lib pf nm (top_durationMs t))
             (num_or (toSeconds_lib pf nm (top_length t)) 0)))"


text \<open>
  The duration readers of the deterministic planner (src/agent/orchestraAgent.js). \<^verbatim>\<open>durMin\<close> gives the
  minutes that a track takes from the time budget of \<^verbatim>\<open>makePlan\<close>:
  \<^verbatim>\<open>Math.max(2, (t.format?.durationSec ?? 180) / 60)\<close>, here for a field that is absent
  (\<open>None\<close>) or a finite number. \<^verbatim>\<open>toCompactTrack\<close> reports the seconds of a track as
  \<^verbatim>\<open>Math.round(t.format.durationSec)\<close> when the field is a finite number and as \<^verbatim>\<open>null\<close>
  otherwise.
\<close>

definition durMin :: "rat option \<Rightarrow> rat" where
  "durMin durationSecField =
     max 2 ((case durationSecField of None \<Rightarrow> 180 | Some v \<Rightarrow> v) / 60)"

fun compactDurationSec :: "jsval \<Rightarrow> rat option" where
  "compactDurationSec (JNum v) = Some (Math_round v)"
| "compactDurationSec v = None"
section \<open>Group planner\<close>

text \<open>
  A candidate row as it is sent to the oracle. Of its fields (id, title, artist,
  seconds, BPM, energy, key) the planner itself reads the identity and the artist.
\<close>

record cand =
  c_id :: "string option"
  c_artist :: string

text \<open>
  One exchange with the tanda oracle: the origin asked for, the candidate list sent,
  and the track identities of the reply. \<open>None\<close> is a call that throws (transport
  failure, time-out, or a reply the \<^verbatim>\<open>NextTanda\<close> schema rejects).
\<close>

record oracle_call =
  call_orchestra :: "string option"
  call_candidates :: "cand list"
  call_trackIds :: "string list option"

text \<open>
  What a run lets the outside see of the planner: each oracle exchange, and the two
  progress messages that announce the alternative-origin retries and the final
  no-origin fallback.
\<close>

datatype planner_event =
    Attempt oracle_call
  | TryingAlternatives
  | FinalFallback

text \<open>
  The oracle is a parameter: the reply to the \<open>n\<close>-th call of the run, given the
  candidate list of that call. Nothing is assumed about it.
\<close>

type_synonym tanda_oracle = "nat \<Rightarrow> cand list \<Rightarrow> string list option"

text \<open>The \<^verbatim>\<open>NextTanda\<close> schema: between 2 and 6 track identities.\<close>

definition NextTanda_ok :: "string list \<Rightarrow> bool" where
  "NextTanda_ok tracks = (2 \<le> length tracks \<and> length tracks \<le> 6)"

text \<open>\<^verbatim>\<open>orchestra && orchestra !== "any orchestra"\<close>.\<close>

definition orchestra_given :: "string option \<Rightarrow> bool" where
  "orchestra_given orchestra = (truthy orchestra \<and> orchestra \<noteq> Some ''any orchestra'')"

text \<open>
  The candidate list of one call of \<^verbatim>\<open>planOneTanda\<close>. The helper that strips ensemble
  suffixes from an origin name is the parameter \<open>normalizeOrchestra\<close>. A size of 0 is
  falsy, so \<^verbatim>\<open>Math.max(4, size || 4)\<close> is 4 for it. \<open>allStyleCandidates\<close> is \<open>None\<close> when
  the caller passes none.
\<close>

definition broadening_threshold :: "nat \<Rightarrow> nat" where
  "broadening_threshold size' = max 4 (if size' = 0 then 4 else size')"

definition planOneTanda_candidates ::
  "(string \<Rightarrow> string) \<Rightarrow> nat \<Rightarrow> cand list \<Rightarrow> cand list option \<Rightarrow> string option \<Rightarrow> cand list" where
  "planOneTanda_candidates normalizeOrchestra size' candidates allStyleCandidates orchestra =
     (if orchestra_given orchestra then
        (let targetNorm = normalizeOrchestra (the orchestra);
             matched = filter (\<lambda>t. normalizeOrchestra (c_artist t) = targetNorm) candidates;
             broadened =
               (if length matched < broadening_threshold size'
                then (case allStyleCandidates of Some a \<Rightarrow> a | None \<Rightarrow> candidates)
                else matched);
             filteredCandidates = (if length broadened = 0 then candidates else broadened)
         in take 80 filteredCandidates)
      else take 80 candidates)"

text \<open>
  \<^verbatim>\<open>planOneTanda\<close>: one oracle call; the reply is padded with the placeholder identity
  \<^verbatim>\<open>"replace"\<close> up to the wanted size. \<open>n\<close> is the number of the call.
\<close>

definition pad_replace :: "nat \<Rightarrow> string list \<Rightarrow> string list" where
  "pad_replace wantSize tracks = tracks @ replicate (wantSize - length tracks) ''replace''"

definition planOneTanda ::
  "(string \<Rightarrow> string) \<Rightarrow> tanda_oracle \<Rightarrow> nat \<Rightarrow> nat \<Rightarrow> cand list \<Rightarrow> cand list option \<Rightarrow>
   string option \<Rightarrow> oracle_call" where
  "planOneTanda normalizeOrchestra oracle n size' candidates allStyleCandidates orchestra =
     (let candSlim =
            planOneTanda_candidates normalizeOrchestra size' candidates allStyleCandidates orchestra
      in \<lparr>call_orchestra = orchestra, call_candidates = candSlim,
          call_trackIds =
            (case oracle n candSlim of
               None \<Rightarrow> None
             | Some tracks \<Rightarrow>
                 if NextTanda_ok tracks then Some (pad_replace size' tracks) else None)\<rparr>)"

text \<open>\<^verbatim>\<open>countReal\<close>: the identities of a result that are not the placeholder.\<close>

definition countReal :: "string list option \<Rightarrow> nat" where
  "countReal r = (case r of None \<Rightarrow> 0 | Some ids \<Rightarrow> length (filter (\<lambda>i. i \<noteq> ''replace'') ids))"

text \<open>The two conditions of the retry ladder, as \<^verbatim>\<open>planOneTandaWithRetry\<close> writes them.\<close>

definition retry_needed :: "nat \<Rightarrow> string list option \<Rightarrow> bool" where
  "retry_needed size' lastResult =
     (lastResult = None \<or> int (countReal lastResult) < max 1 (int size' - 2))"

definition fallback_needed :: "string list option \<Rightarrow> bool" where
  "fallback_needed lastResult = (lastResult = None \<or> countReal lastResult = 0)"

text \<open>
  The loop over the alternative origins. A call that throws is skipped; a better
  result replaces the best one; the loop stops at a reply with at least \<open>size - 1\<close>
  real identities. \<open>n\<close> numbers the next oracle call.
\<close>

fun retry_alternatives ::
  "(string \<Rightarrow> string) \<Rightarrow> tanda_oracle \<Rightarrow> nat \<Rightarrow> cand list \<Rightarrow> cand list option \<Rightarrow>
   nat \<Rightarrow> string list \<Rightarrow> string list option \<Rightarrow> string list option \<times> planner_event list" where
  "retry_alternatives nz oracle size' candidates allStyle n [] lastResult = (lastResult, [])"
| "retry_alternatives nz oracle size' candidates allStyle n (altOrchestra # alts) lastResult =
     (let c = planOneTanda nz oracle n size' candidates allStyle (Some altOrchestra) in
      case call_trackIds c of
        None \<Rightarrow>
          (let (r, evs) = retry_alternatives nz oracle size' candidates allStyle (n + 1) alts lastResult
           in (r, Attempt c # evs))
      | Some ids \<Rightarrow>
          (let best = (if countReal (Some ids) > countReal lastResult then Some ids else lastResult)
           in if int (countReal (Some ids)) \<ge> int size' - 1 then (best, [Attempt c])
              else
                (let (r, evs) = retry_alternatives nz oracle size' candidates allStyle (n + 1) alts best
                 in (r, Attempt c # evs))))"

text \<open>The oracle calls among the events.\<close>

definition attempts :: "planner_event list \<Rightarrow> oracle_call list" where
  "attempts evs = concat (map (\<lambda>e. case e of Attempt c \<Rightarrow> [c] | _ \<Rightarrow> []) evs)"

text \<open>
  \<^verbatim>\<open>planOneTandaWithRetry\<close> up to its last step: the first attempt and, when it threw or
  returned too few real identities, the retries. \<open>alternativeOrchestras\<close> is the list that
  \<^verbatim>\<open>getAlternativeOrchestras(profiles, [orchestra])\<close> returns (at most 8 names, ranked by
  its diversity score). The result is \<^verbatim>\<open>lastResult\<close> at that point (\<open>None\<close> for \<^verbatim>\<open>null\<close>)
  with the events so far.
\<close>

definition firstAndRetries ::
  "(string \<Rightarrow> string) \<Rightarrow> tanda_oracle \<Rightarrow> nat \<Rightarrow> nat \<Rightarrow> cand list \<Rightarrow> cand list option \<Rightarrow>
   string option \<Rightarrow> string list \<Rightarrow> nat \<Rightarrow> string list option \<times> planner_event list" where
  "firstAndRetries nz oracle n size' candidates allStyle orchestra alternativeOrchestras maxRetries =
     (let first = planOneTanda nz oracle n size' candidates allStyle orchestra;
          lastResult = call_trackIds first
      in if retry_needed size' lastResult then
           (let (r, evs) =
                  retry_alternatives nz oracle size' candidates allStyle (n + 1)
                    (take (min maxRetries (length alternativeOrchestras)) alternativeOrchestras)
                    lastResult
            in (r, Attempt first # TryingAlternatives # evs))
         else (lastResult, [Attempt first]))"

text \<open>
  \<^verbatim>\<open>planOneTandaWithRetry\<close>: after the first attempt and the retries, the final call
  without an origin when the best result has no real identity. The result is the best
  list of track identities, empty when no call succeeded, with the events in the order
  they happen.
\<close>

definition planOneTandaWithRetry ::
  "(string \<Rightarrow> string) \<Rightarrow> tanda_oracle \<Rightarrow> nat \<Rightarrow> nat \<Rightarrow> cand list \<Rightarrow> cand list option \<Rightarrow>
   string option \<Rightarrow> string list \<Rightarrow> nat \<Rightarrow> string list \<times> planner_event list" where
  "planOneTandaWithRetry nz oracle n size' candidates allStyle orchestra alternativeOrchestras
       maxRetries =
     (let (lastResult, events) =
            firstAndRetries nz oracle n size' candidates allStyle orchestra alternativeOrchestras
              maxRetries;
          (final, fallbackEvents) =
            (if fallback_needed lastResult then
               (let fb = planOneTanda nz oracle (n + length (attempts events)) size' candidates
                           allStyle None;
                    r = (if countReal (call_trackIds fb) > countReal lastResult
                         then call_trackIds fb else lastResult)
                in (r, [FinalFallback, Attempt fb]))
             else (lastResult, []))
      in ((case final of None \<Rightarrow> [] | Some ids \<Rightarrow> ids), events @ fallbackEvents))"
section \<open>Sequence assembler: the streaming route\<close>

text \<open>
  A library track, reduced to what the assembler reads of it:
  \<^item> \<open>t_id\<close> is the property \<^verbatim>\<open>id\<close>; \<open>t_alt_id\<close> is the value of
    \<^verbatim>\<open>t.file?.id ?? getAbsolutePath(t.file) ?? t.path ?? t.uri\<close>;
  \<^item> \<open>t_artist\<close> is \<^verbatim>\<open>(t.artist ?? t.tags?.artist ?? t.metadata?.artist ?? "Unknown").trim()\<close>
    and \<open>t_artist_or_empty\<close> the same with \<^verbatim>\<open>""\<close> for \<^verbatim>\<open>"Unknown"\<close>;
  \<^item> \<open>t_genres\<close> is \<^verbatim>\<open>tags.genre\<close> as a list (empty when the tag is absent), \<open>t_styles\<close> is
    \<^verbatim>\<open>t.styles\<close> when that is a list (else empty); \<open>t_year\<close> is \<^verbatim>\<open>effectiveYear(t)\<close>;
    \<open>t_looks_alt\<close> says that the alternative-music lexicon matches its genres and styles;
  \<^item> \<open>t_seconds\<close> is \<^verbatim>\<open>durationSec(t)\<close> and \<open>t_energy\<close> the energy tag;
  \<^item> \<open>t_placeholder\<close> is the property \<^verbatim>\<open>placeholder\<close>.
\<close>

record track =
  t_id :: "string option"
  t_alt_id :: "string option"
  t_title :: "string option"
  t_artist :: string
  t_artist_or_empty :: string
  t_genres :: "string list"
  t_styles :: "string list"
  t_year :: "int option"
  t_looks_alt :: bool
  t_seconds :: rat
  t_energy :: "rat option"
  t_placeholder :: bool

definition getId :: "track \<Rightarrow> string option" where
  "getId t = (case t_id t of Some i \<Rightarrow> Some i | None \<Rightarrow> t_alt_id t)"

text \<open>The object \<^verbatim>\<open>{ placeholder: true, style, title: "replace this" }\<close>.\<close>

definition placeholderTrack :: track where
  "placeholderTrack =
     \<lparr>t_id = None, t_alt_id = None, t_title = Some ''replace this'', t_artist = ''Unknown'',
      t_artist_or_empty = [], t_genres = [], t_styles = [], t_year = None, t_looks_alt = False,
      t_seconds = 0, t_energy = None, t_placeholder = True\<rparr>"

definition slimOf :: "track \<Rightarrow> cand" where
  "slimOf t = \<lparr>c_id = getId t, c_artist = t_artist t\<rparr>"

text \<open>The role rules: first and last year, and whether the role is an "alt" role.\<close>

definition ROLE_RULES :: "string \<Rightarrow> (int \<times> int \<times> bool) option" where
  "ROLE_RULES role =
     (if role = ''classic'' then Some (1930, 1945, False)
      else if role = ''rich'' then Some (1946, 1958, False)
      else if role = ''modern'' then Some (1990, 2100, False)
      else if role = ''alt'' then Some (1995, 2100, True)
      else None)"

definition trackFitsRole :: "track \<Rightarrow> string \<Rightarrow> bool" where
  "trackFitsRole t role =
     (if role = [] then True
      else
        (case ROLE_RULES role of
           None \<Rightarrow> True
         | Some (minYear, maxYear, preferAlt) \<Rightarrow>
             (let inYear = (case t_year t of None \<Rightarrow> True | Some y \<Rightarrow> minYear \<le> y \<and> y \<le> maxYear)
              in if \<not> preferAlt then inYear else inYear \<and> t_looks_alt t)))"

record slot =
  s_style :: string
  s_role :: string
  s_size :: nat

record tanda =
  td_style :: string
  td_role :: string
  td_tracks :: "track list"
  td_seconds :: rat

text \<open>
  The state of one run: the set \<^verbatim>\<open>usedIds\<close> of normalized keys (in insertion order),
  the remaining budget, the groups made so far, and the oracle exchanges so far.
\<close>

record plan_state =
  usedIds :: "string list"
  remainingSeconds :: rat
  tandasResolved :: "tanda list"
  exchanges :: "planner_event list"

text \<open>
  What the run takes from outside: the working set, the two oracles (\<open>None\<close> is a call
  that throws), two helpers that only order or name things
  (\<^verbatim>\<open>getAlternativeOrchestras\<close> for the origin a call excludes, and the suffix stripping of
  \<^verbatim>\<open>planOneTanda\<close>), and \<^verbatim>\<open>String.prototype.toLowerCase\<close>.
\<close>

record env =
  workingSet :: "track list"
  tandaOracle :: tanda_oracle
  orchestraOracle :: "nat \<Rightarrow> string list option"
  alternativeOrchestras :: "string option \<Rightarrow> string list"
  normalizeOrchestra :: "string \<Rightarrow> string"
  toLowerCase :: "string \<Rightarrow> string"

text \<open>
  How a run can end other than with its \<^verbatim>\<open>done\<close> event: an exception reaches the
  \<^verbatim>\<open>catch\<close> of the route, which sends an \<^verbatim>\<open>error\<close> event and closes the stream. The
  groups sent before stay sent, so a step of the run gives the exception, if any, together
  with the state reached.
\<close>

datatype stream_error = ReferenceError

text \<open>\<^verbatim>\<open>isUsed\<close> and \<^verbatim>\<open>markUsed\<close> on the set of keys.\<close>

definition isUsed :: "(string \<Rightarrow> string) \<Rightarrow> string list \<Rightarrow> string option \<Rightarrow> bool" where
  "isUsed lc used i = (idKey lc i \<in> set used)"

definition markUsed :: "(string \<Rightarrow> string) \<Rightarrow> string list \<Rightarrow> string option \<Rightarrow> string list" where
  "markUsed lc used i = (if idKey lc i \<in> set used then used else used @ [idKey lc i])"

text \<open>
  \<^verbatim>\<open>resolveByAnyId\<close>: by exact identity, else by normalized key. Both maps are built
  from the working set in order, so of several tracks under one key the last one is found.
\<close>

definition resolveByAnyId :: "(string \<Rightarrow> string) \<Rightarrow> track list \<Rightarrow> string \<Rightarrow> track option" where
  "resolveByAnyId lc ws i =
     (case find (\<lambda>t. getId t = Some i) (rev ws) of
        Some t \<Rightarrow> Some t
      | None \<Rightarrow> find (\<lambda>t. idKey lc (getId t) = matchKey lc i) (rev ws))"

text \<open>
  The loop that accepts the identities of a reply: an identity whose key is used is
  skipped, as is one that resolves to no track of the working set and, when a target
  origin is given, one whose track is by another origin. An accepted track is marked used.
\<close>

fun collectChosen ::
  "(string \<Rightarrow> string) \<Rightarrow> track list \<Rightarrow> string option \<Rightarrow> string list \<Rightarrow> string list \<Rightarrow>
   track list \<times> string list" where
  "collectChosen lc ws targetOrchestra used [] = ([], used)"
| "collectChosen lc ws targetOrchestra used (i # ids) =
     (if isUsed lc used (Some i) then collectChosen lc ws targetOrchestra used ids
      else
        (case resolveByAnyId lc ws i of
           None \<Rightarrow> collectChosen lc ws targetOrchestra used ids
         | Some tr \<Rightarrow>
             if (case targetOrchestra of None \<Rightarrow> True | Some orch \<Rightarrow> t_artist tr = orch) then
               (let (rest, used') =
                      collectChosen lc ws targetOrchestra (markUsed lc used (getId tr)) ids
                in (tr # rest, used'))
             else collectChosen lc ws targetOrchestra used ids))"

text \<open>Padding with placeholders up to the slot size.\<close>

definition padToSize :: "nat \<Rightarrow> track list \<Rightarrow> track list" where
  "padToSize sizeTarget chosenTracks =
     chosenTracks @ replicate (sizeTarget - length chosenTracks) placeholderTrack"

definition realTrackCount :: "track list \<Rightarrow> nat" where
  "realTrackCount tracks =
     length (filter (\<lambda>t. truthy (t_id t) \<and> \<not> t_placeholder t \<and> t_title t \<noteq> Some ''replace this'')
               tracks)"

text \<open>A group that passed the checks is appended and its seconds leave the budget.\<close>

definition pushTanda :: "plan_state \<Rightarrow> tanda \<Rightarrow> plan_state" where
  "pushTanda st td =
     st\<lparr>tandasResolved := tandasResolved st @ [td],
        remainingSeconds := remainingSeconds st - td_seconds td\<rparr>"

text \<open>The pool of a slot: style, role fit, and not used.\<close>

definition baseRolePool ::
  "(string \<Rightarrow> string) \<Rightarrow> track list \<Rightarrow> slot \<Rightarrow> string list \<Rightarrow> track list" where
  "baseRolePool lc ws sl used =
     filter (\<lambda>t. lc (s_style sl) \<in> set (map lc (t_genres t)) \<and>
                 trackFitsRole t (s_role sl) \<and> \<not> isUsed lc used (getId t)) ws"

definition availability :: "track list \<Rightarrow> string \<Rightarrow> nat" where
  "availability pool orch = length (filter (\<lambda>t. t_artist t = orch) pool)"

text \<open>The keys of a \<^verbatim>\<open>Map\<close> in insertion order: first occurrences.\<close>

definition firstOccurrences :: "'a list \<Rightarrow> 'a list" where
  "firstOccurrences xs = rev (remdups (rev xs))"

text \<open>
  The target origin of a slot: the first suggestion with enough unused tracks, else the
  first origin of the pool with enough of them.
\<close>

definition pickTargetOrchestra :: "nat \<Rightarrow> track list \<Rightarrow> string list \<Rightarrow> string option" where
  "pickTargetOrchestra sizeTarget pool suggestions =
     (let suggested = find (\<lambda>orch. availability pool orch \<ge> sizeTarget) (map trim suggestions)
      in if truthy suggested then suggested
         else
           (case filter (\<lambda>orch. availability pool orch \<ge> sizeTarget)
                   (firstOccurrences (map t_artist pool)) of
              [] \<Rightarrow> suggested
            | orch # _ \<Rightarrow> Some orch))"

text \<open>
  The origin-aware attempt of a slot, once the ranking oracle has answered. The result
  says whether a group was made. The accepted tracks stay marked used also when the group
  is dropped for being too long.
\<close>

definition orchestraAttempt ::
  "env \<Rightarrow> slot \<Rightarrow> string list \<Rightarrow> plan_state \<Rightarrow> bool \<times> plan_state" where
  "orchestraAttempt E sl suggestions st =
     (let sizeTarget = s_size sl;
          pool = baseRolePool (toLowerCase E) (workingSet E) sl (usedIds st);
          targetOrchestra = pickTargetOrchestra sizeTarget pool suggestions
      in if \<not> truthy targetOrchestra then (False, st)
         else
           (let candidatesAll = filter (\<lambda>t. t_artist t = the targetOrchestra) pool
            in if candidatesAll = [] then (False, st)
               else
                 (let (ids, evs) =
                        planOneTandaWithRetry (normalizeOrchestra E) (tandaOracle E)
                          (length (attempts (exchanges st))) sizeTarget
                          (map slimOf (take 80 candidatesAll)) (Some (map slimOf pool))
                          targetOrchestra (alternativeOrchestras E targetOrchestra) 3;
                      (chosen, used') =
                        collectChosen (toLowerCase E) (workingSet E) targetOrchestra (usedIds st) ids;
                      chosenTracks = padToSize sizeTarget chosen;
                      total = sum_list (map t_seconds chosenTracks);
                      tandaSeconds =
                        (if total \<le> 0 then 180 * of_nat (length chosenTracks) else total);
                      st1 = st\<lparr>usedIds := used', exchanges := exchanges st @ evs\<rparr>
                  in if chosenTracks \<noteq> [] \<and> tandaSeconds > 0 \<and>
                        tandaSeconds \<le> remainingSeconds st + 30
                     then (True,
                           pushTanda st1
                             \<lparr>td_style = s_style sl, td_role = s_role sl,
                              td_tracks = chosenTracks, td_seconds = tandaSeconds\<rparr>)
                     else (False, st1))))"

text \<open>
  \<^verbatim>\<open>shortlistCandidates\<close>. The used keys are normalized once more by \<^verbatim>\<open>toSet\<close>; tracks
  of 60 to 480 seconds with a truthy identity are kept, sorted by the distance of their
  energy from 7.
\<close>

definition shortlistCandidates ::
  "(string \<Rightarrow> string) \<Rightarrow> string \<Rightarrow> track list \<Rightarrow> string list \<Rightarrow> nat \<Rightarrow> cand list" where
  "shortlistCandidates lc style library used maxN =
     (let usedNorm = map (matchKey lc) used;
          want = lc (trim style);
          pool =
            filter (\<lambda>t. truthy (getId t) \<and> idKey lc (getId t) \<notin> set usedNorm \<and>
                        60 \<le> t_seconds t \<and> t_seconds t \<le> 480)
              (filter (\<lambda>t. want \<in> set (map lc (t_genres t))) library);
          sorted = sort_key (\<lambda>t. \<bar>(case t_energy t of None \<Rightarrow> 7 | Some e \<Rightarrow> e) - 7\<bar>) pool
      in map slimOf (take maxN sorted))"

text \<open>
  The style-only fallback of a slot, from the shortlist on: the planner is asked, the
  identities of its result are accepted, and a group with at least one real track that
  fits the budget is appended.
\<close>

definition styleOnlyGroup :: "env \<Rightarrow> slot \<Rightarrow> cand list \<Rightarrow> plan_state \<Rightarrow> plan_state" where
  "styleOnlyGroup E sl styleOnly st =
     (let sizeTarget = s_size sl;
          (ids, evs) =
            planOneTandaWithRetry (normalizeOrchestra E) (tandaOracle E)
              (length (attempts (exchanges st))) sizeTarget
              (take 60 styleOnly) (Some styleOnly) None (alternativeOrchestras E None) 3;
          (chosen, used') = collectChosen (toLowerCase E) (workingSet E) None (usedIds st) ids;
          chosenTracks = padToSize sizeTarget chosen;
          total = sum_list (map t_seconds chosenTracks);
          tandaSeconds = (if total = 0 then 180 * of_nat (length chosenTracks) else total);
          st1 = st\<lparr>usedIds := used', exchanges := exchanges st @ evs\<rparr>
      in if chosenTracks \<noteq> [] \<and> tandaSeconds > 0 \<and>
            tandaSeconds \<le> remainingSeconds st + 30 \<and> realTrackCount chosenTracks \<ge> 1
         then pushTanda st1
                \<lparr>td_style = s_style sl, td_role = s_role sl,
                 td_tracks = chosenTracks, td_seconds = tandaSeconds\<rparr>
         else st1)"

text \<open>
  The style-only fallback of a slot. The shortlist is sorted with a comparison that calls
  \<^verbatim>\<open>roleScoreBoost\<close>, a function declared inside \<^verbatim>\<open>registerAgentRoutes\<close> and not in scope
  in this route: the first comparison throws a \<^verbatim>\<open>ReferenceError\<close>, which ends the run.
  \<^verbatim>\<open>Array.prototype.sort\<close> compares only when the list has two or more rows.
\<close>

definition styleOnlyAttempt ::
  "env \<Rightarrow> slot \<Rightarrow> plan_state \<Rightarrow> stream_error option \<times> plan_state" where
  "styleOnlyAttempt E sl st =
     (let styleOnly =
            shortlistCandidates (toLowerCase E) (s_style sl) (workingSet E) (usedIds st) 100
      in if 2 \<le> length styleOnly then (Some ReferenceError, st)
         else (None, styleOnlyGroup E sl styleOnly st))"

text \<open>
  One slot: the ranking oracle is asked first; when it throws, or no group comes of the
  origin-aware attempt, the style-only fallback runs.
\<close>

definition planSlot ::
  "env \<Rightarrow> nat \<Rightarrow> slot \<Rightarrow> plan_state \<Rightarrow> stream_error option \<times> plan_state" where
  "planSlot E i sl st =
     (case orchestraOracle E i of
        None \<Rightarrow> styleOnlyAttempt E sl st
      | Some suggestions \<Rightarrow>
          (let (tandaMade, st1) = orchestraAttempt E sl suggestions st
           in if tandaMade then (None, st1) else styleOnlyAttempt E sl st1))"

text \<open>
  The planning loop stops when the slots are consumed or at most 60 seconds remain, or
  with the exception of a slot.
\<close>

fun planningLoop ::
  "env \<Rightarrow> nat \<Rightarrow> slot list \<Rightarrow> plan_state \<Rightarrow> stream_error option \<times> plan_state" where
  "planningLoop E i [] st = (None, st)"
| "planningLoop E i (sl # slots) st =
     (if remainingSeconds st \<le> 60 then (None, st)
      else
        (case planSlot E i sl st of
           (Some e, st1) \<Rightarrow> (Some e, st1)
         | (None, st1) \<Rightarrow> planningLoop E (i + 1) slots st1))"

definition initialState :: "rat \<Rightarrow> plan_state" where
  "initialState minutes =
     \<lparr>usedIds = [], remainingSeconds = minutes * 60, tandasResolved = [], exchanges = []\<rparr>"

text \<open>
  A run of the route for a budget and a list of slots: the exception that ended it, or
  \<open>None\<close> for a completed run, and the final state. The plan blocks below are built and
  sent for a completed run only.
\<close>

definition generate ::
  "env \<Rightarrow> rat \<Rightarrow> slot list \<Rightarrow> stream_error option \<times> plan_state" where
  "generate E minutes slots = planningLoop E 0 slots (initialState minutes)"

text \<open>
  The plan blocks: the groups with one cortina between two of them, cycled from the
  pool that \<^verbatim>\<open>listCortinas\<close> returned. A cortina row carries its seconds when they are
  a finite number, and its rounded minutes.
\<close>

record cortina =
  co_seconds :: "rat option"
  co_approxMinutes :: "rat option"

definition cortinaSeconds :: "cortina option \<Rightarrow> rat" where
  "cortinaSeconds c =
     (case c of
        None \<Rightarrow> Math_round (1 * 60)
      | Some row \<Rightarrow>
          (case co_seconds row of
             Some s \<Rightarrow> s
           | None \<Rightarrow>
               Math_round ((case co_approxMinutes row of Some m \<Rightarrow> m | None \<Rightarrow> 1) * 60)))"

datatype block = TandaBlock tanda | CortinaBlock rat

fun planBlocks :: "cortina list \<Rightarrow> nat \<Rightarrow> tanda list \<Rightarrow> block list" where
  "planBlocks cortinas i [] = []"
| "planBlocks cortinas i [td] = [TandaBlock td]"
| "planBlocks cortinas i (td # tds) =
     TandaBlock td #
     CortinaBlock
       (cortinaSeconds (if cortinas \<noteq> [] then Some (cortinas ! (i mod length cortinas)) else None)) #
     planBlocks cortinas (i + 1) tds"

fun blockSeconds :: "block \<Rightarrow> rat" where
  "blockSeconds (TandaBlock td) = td_seconds td"
| "blockSeconds (CortinaBlock s) = s"

definition totalSeconds :: "block list \<Rightarrow> rat" where
  "totalSeconds blocks = sum_list (map blockSeconds blocks)"

text \<open>The tracks of the groups of a state that are not placeholders, and their keys.\<close>

definition emittedTracks :: "plan_state \<Rightarrow> track list" where
  "emittedTracks st =
     filter (\<lambda>t. \<not> t_placeholder t) (concat (map td_tracks (tandasResolved st)))"

definition trackKey :: "(string \<Rightarrow> string) \<Rightarrow> track \<Rightarrow> string" where
  "trackKey lc t = idKey lc (getId t)"

text \<open>
  The effect of planning one slot of size \<open>sz\<close>, as the proofs below use it: the used keys
  only grow and stay free of duplicates; either no group is added and the budget stays,
  or one group is added whose seconds are positive, fit the remaining budget plus 30 and
  leave it, which has at least \<open>sz\<close> entries, and whose tracks have distinct keys, all new
  and all marked used.
\<close>

definition slotEffect :: "(string \<Rightarrow> string) \<Rightarrow> nat \<Rightarrow> plan_state \<Rightarrow> plan_state \<Rightarrow> bool" where
  "slotEffect lc sz st st' =
     (set (usedIds st) \<subseteq> set (usedIds st') \<and>
      (distinct (usedIds st) \<longrightarrow> distinct (usedIds st')) \<and>
      ((tandasResolved st' = tandasResolved st \<and> remainingSeconds st' = remainingSeconds st) \<or>
       (let td = last (tandasResolved st');
            keys = map (trackKey lc) (filter (\<lambda>t. \<not> t_placeholder t) (td_tracks td))
        in tandasResolved st' = tandasResolved st @ [td] \<and>
           remainingSeconds st' = remainingSeconds st - td_seconds td \<and>
           0 < td_seconds td \<and> td_seconds td \<le> remainingSeconds st + 30 \<and>
           sz \<le> length (td_tracks td) \<and>
           distinct keys \<and> set keys \<inter> set (usedIds st) = {} \<and>
           set keys \<subseteq> set (usedIds st'))))"

text \<open>The invariant of the planning loop for a budget of \<open>B\<close> seconds.\<close>

definition runInvariant :: "(string \<Rightarrow> string) \<Rightarrow> rat \<Rightarrow> plan_state \<Rightarrow> bool" where
  "runInvariant lc B st =
     (sum_list (map td_seconds (tandasResolved st)) = B - remainingSeconds st \<and>
      (tandasResolved st = [] \<or> - 30 \<le> remainingSeconds st) \<and>
      distinct (map (trackKey lc) (emittedTracks st)) \<and>
      set (map (trackKey lc) (emittedTracks st)) \<subseteq> set (usedIds st) \<and>
      distinct (usedIds st))"




fun isTandaBlock :: "block \<Rightarrow> bool" where
  "isTandaBlock (TandaBlock td) = True"
| "isTandaBlock (CortinaBlock s) = False"

section \<open>Scenarios\<close>

text \<open>A library track with an identity, an artist, one genre and a duration.\<close>

definition demoTrack :: "string \<Rightarrow> string \<Rightarrow> string \<Rightarrow> rat \<Rightarrow> track" where
  "demoTrack i artist genre secs =
     \<lparr>t_id = Some i, t_alt_id = None, t_title = Some i, t_artist = artist,
      t_artist_or_empty = artist, t_genres = [genre], t_styles = [], t_year = None,
      t_looks_alt = False, t_seconds = secs, t_energy = None, t_placeholder = False\<rparr>"


text \<open>
  Scenario B: four Tango tracks of one origin; the ranking oracle suggests that origin
  and the tanda oracle answers all four identities.
\<close>

definition scenarioB :: env where
  "scenarioB =
     \<lparr>workingSet = [demoTrack ''a'' ''X'' ''Tango'' 200, demoTrack ''b'' ''X'' ''Tango'' 200,
                    demoTrack ''c'' ''X'' ''Tango'' 200, demoTrack ''d'' ''X'' ''Tango'' 200],
      tandaOracle = (\<lambda>n cs. Some [''a'', ''b'', ''c'', ''d'']),
      orchestraOracle = (\<lambda>i. Some [''X'']),
      alternativeOrchestras = (\<lambda>orch. []),
      normalizeOrchestra = (\<lambda>s. s),
      toLowerCase = lowerASCII\<rparr>"

text \<open>
  Scenario C: two Tango tracks of 165 seconds and two of 180 seconds, all of one origin;
  the ranking oracle suggests that origin; the tanda oracle answers the first pair to its
  first call and the second pair afterwards.
\<close>

definition scenarioC :: env where
  "scenarioC =
     \<lparr>workingSet = [demoTrack ''a'' ''X'' ''Tango'' 165, demoTrack ''b'' ''X'' ''Tango'' 165,
                    demoTrack ''c'' ''X'' ''Tango'' 180, demoTrack ''d'' ''X'' ''Tango'' 180],
      tandaOracle = (\<lambda>n cs. if n = 0 then Some [''a'', ''b''] else Some [''c'', ''d'']),
      orchestraOracle = (\<lambda>i. Some [''X'']),
      alternativeOrchestras = (\<lambda>orch. []),
      normalizeOrchestra = (\<lambda>s. s),
      toLowerCase = lowerASCII\<rparr>"

text \<open>
  Scenario E: four Tango tracks of one origin under path identities; the ranking oracle
  suggests that origin; the tanda oracle answers the first two tracks to its first call,
  and afterwards the same two in other spellings (upper case with backslashes, and
  percent-encoded with another extension) before the other two.
\<close>

definition scenarioE :: env where
  "scenarioE =
     \<lparr>workingSet = [demoTrack ''c:/music/a.mp3'' ''X'' ''Tango'' 200,
                    demoTrack ''c:/music/b.mp3'' ''X'' ''Tango'' 200,
                    demoTrack ''c:/music/c.mp3'' ''X'' ''Tango'' 200,
                    demoTrack ''c:/music/d.mp3'' ''X'' ''Tango'' 200],
      tandaOracle =
        (\<lambda>n cs. if n = 0 then Some [''c:/music/a.mp3'', ''c:/music/b.mp3'']
                 else Some [''C:'' @ [CHR 0x5C] @ ''Music'' @ [CHR 0x5C] @ ''A.MP3'',
                            ''c%3A/music/b.wav'', ''c:/music/c.mp3'', ''c:/music/d.mp3'']),
      orchestraOracle = (\<lambda>i. Some [''X'']),
      alternativeOrchestras = (\<lambda>orch. []),
      normalizeOrchestra = (\<lambda>s. s),
      toLowerCase = lowerASCII\<rparr>"

section \<open>Replacement service\<close>

text \<open>
  The request of \<^verbatim>\<open>/api/agent/replace\<close> with a catalog that is not empty, and the working
  set, that is the library restricted to the catalog. \<open>rq_score\<close> is the continuity cost of a track against the neighbours of the
  request, by which the pool is sorted; \<open>rq_random\<close> is the draw of \<^verbatim>\<open>Math.random\<close> for the
  fallback, as an index.
\<close>

record replace_request =
  rq_workingSet :: "track list"
  rq_style :: string
  rq_orchestra :: "string option"
  rq_avoidIds :: "string list"
  rq_previouslySelected :: "string list"
  rq_topK :: nat
  rq_homogenize :: bool
  rq_score :: "track \<Rightarrow> rat"
  rq_random :: nat

text \<open>
  The reply of the replacement oracle: the chosen identity and the identities of the
  suggestions. \<open>None\<close> is a call that throws.
\<close>

type_synonym replace_reply = "(string \<times> string list) option"

datatype replace_error = Status400 | Status404 | Status422 | Status500

text \<open>\<^verbatim>\<open>toSet\<close>: the normalized keys of a list of identities.\<close>

definition toSet :: "(string \<Rightarrow> string) \<Rightarrow> string list \<Rightarrow> string set" where
  "toSet lc ids = set (map (matchKey lc) ids)"

text \<open>\<^verbatim>\<open>resolveId\<close> of the route, also for the \<^verbatim>\<open>null\<close> identity of a row.\<close>

definition resolveId :: "(string \<Rightarrow> string) \<Rightarrow> track list \<Rightarrow> string option \<Rightarrow> track option" where
  "resolveId lc ws i =
     (case find (\<lambda>t. getId t = i) (rev ws) of
        Some t \<Rightarrow> Some t
      | None \<Rightarrow> find (\<lambda>t. trackKey lc t = idKey lc i) (rev ws))"

text \<open>
  The style tags \<^verbatim>\<open>hasStyle\<close> looks at: \<^verbatim>\<open>t.styles\<close> when not empty, else the genre
  tag (an absent tag counts as one empty string).
\<close>

definition styleTags :: "track \<Rightarrow> string list" where
  "styleTags t =
     (if t_styles t \<noteq> [] then t_styles t
      else if t_genres t = [] then [[]] else t_genres t)"

definition hasStyle :: "(string \<Rightarrow> string) \<Rightarrow> string \<Rightarrow> track \<Rightarrow> bool" where
  "hasStyle lc wantStyle t = (\<exists>s\<in>set (styleTags t). lc (trim s) = wantStyle)"

definition getCompatibleStyles :: "(string \<Rightarrow> string) \<Rightarrow> string \<Rightarrow> string list" where
  "getCompatibleStyles lc mainStyle =
     (let normalized = lc mainStyle in
      if normalized = ''tango'' then [''tango'', ''vals'', ''milonga'']
      else if normalized = ''vals'' then [''vals'', ''tango'']
      else if normalized = ''milonga'' then [''milonga'', ''tango'']
      else if normalized = ''waltz'' then [''vals'', ''tango'']
      else if normalized = ''valz'' then [''vals'', ''tango'']
      else [normalized])"

definition hasCompatibleStyle :: "(string \<Rightarrow> string) \<Rightarrow> string list \<Rightarrow> track \<Rightarrow> bool" where
  "hasCompatibleStyle lc compatibleStyles t =
     (\<exists>s\<in>set (styleTags t). lc (trim s) \<in> set compatibleStyles)"

text \<open>A track whose key is neither in the current group nor among the earlier picks.\<close>

definition notExcluded :: "(string \<Rightarrow> string) \<Rightarrow> string set \<Rightarrow> string set \<Rightarrow> track \<Rightarrow> bool" where
  "notExcluded lc avoid previouslySelectedSet t =
     (trackKey lc t \<notin> avoid \<and> trackKey lc t \<notin> previouslySelectedSet)"

text \<open>
  The target origin: under "homogenize" the most frequent origin among the tracks of
  the current group, else the origin of the request.
\<close>

definition dominantOrchestra :: "(string \<Rightarrow> string) \<Rightarrow> track list \<Rightarrow> string list \<Rightarrow> string option" where
  "dominantOrchestra lc ws avoidIds =
     (let orchs =
            filter (\<lambda>orch. orch \<noteq> [])
              (concat (map (\<lambda>i. case resolveId lc ws (Some i) of
                                  None \<Rightarrow> []
                                | Some tr \<Rightarrow> [t_artist tr]) avoidIds));
          ranked =
            sort_key (\<lambda>orch. - int (length (filter (\<lambda>x. x = orch) orchs)))
              (firstOccurrences orchs)
      in case ranked of [] \<Rightarrow> None | orch # _ \<Rightarrow> Some orch)"

definition replaceTarget :: "(string \<Rightarrow> string) \<Rightarrow> replace_request \<Rightarrow> string option" where
  "replaceTarget lc rq =
     (if rq_homogenize rq then dominantOrchestra lc (rq_workingSet rq) (rq_avoidIds rq)
      else if truthy (rq_orchestra rq) then
        (let orch = trim (the (rq_orchestra rq)) in if orch = [] then None else Some orch)
      else None)"

text \<open>
  The candidate pool before scoring: the style pool, narrowed to the target origin when
  enough remain, and broadened step by step when it starves.
\<close>

definition excludedSets :: "(string \<Rightarrow> string) \<Rightarrow> replace_request \<Rightarrow> string set \<times> string set" where
  "excludedSets lc rq = (toSet lc (rq_avoidIds rq), toSet lc (rq_previouslySelected rq))"

definition stylePool :: "(string \<Rightarrow> string) \<Rightarrow> replace_request \<Rightarrow> track list" where
  "stylePool lc rq =
     (let (avoid, previouslySelectedSet) = excludedSets lc rq;
          wantStyle = lc (trim (rq_style rq))
      in filter (\<lambda>t. hasStyle lc wantStyle t \<and> notExcluded lc avoid previouslySelectedSet t)
           (rq_workingSet rq))"

definition narrowedPool :: "(string \<Rightarrow> string) \<Rightarrow> replace_request \<Rightarrow> track list" where
  "narrowedPool lc rq =
     (let base = stylePool lc rq;
          needsBroadening = (rq_previouslySelected rq \<noteq> []);
          targetOrchestra = replaceTarget lc rq;
          strict = filter (\<lambda>t. t_artist_or_empty t = the targetOrchestra) base
      in if truthy targetOrchestra \<and> \<not> needsBroadening \<and> length strict \<ge> min 3 (rq_topK rq)
         then strict else base)"

definition broadenedPool :: "(string \<Rightarrow> string) \<Rightarrow> replace_request \<Rightarrow> track list \<Rightarrow> track list" where
  "broadenedPool lc rq base =
     (let (avoid, previouslySelectedSet) = excludedSets lc rq;
          wantStyle = lc (trim (rq_style rq));
          base2 = (if truthy (replaceTarget lc rq) then stylePool lc rq else base);
          expandedBase =
            filter (\<lambda>t. hasCompatibleStyle lc (getCompatibleStyles lc wantStyle) t \<and>
                        notExcluded lc avoid previouslySelectedSet t) (rq_workingSet rq);
          base3 =
            (if length base2 < max 1 (rq_topK rq) \<and> length expandedBase > length base2
             then expandedBase else base2)
      in if base3 = [] then filter (notExcluded lc avoid previouslySelectedSet) (rq_workingSet rq)
         else base3)"

definition replacePool :: "(string \<Rightarrow> string) \<Rightarrow> replace_request \<Rightarrow> track list" where
  "replacePool lc rq =
     (let base = narrowedPool lc rq;
          needsBroadening = (rq_previouslySelected rq \<noteq> [])
      in if base = [] \<or> (length base < rq_topK rq \<and> needsBroadening)
         then broadenedPool lc rq base else base)"

text \<open>The pool sorted by the continuity cost, and the identities of the slim candidate rows.\<close>

definition scoredPool :: "(string \<Rightarrow> string) \<Rightarrow> replace_request \<Rightarrow> track list" where
  "scoredPool lc rq = sort_key (rq_score rq) (replacePool lc rq)"

definition replaceSlim :: "(string \<Rightarrow> string) \<Rightarrow> replace_request \<Rightarrow> string option list" where
  "replaceSlim lc rq = map getId (take (max 80 (rq_topK rq)) (scoredPool lc rq))"

text \<open>The \<^verbatim>\<open>ReplacementResult\<close> schema wants at least one suggestion.\<close>

definition ReplacementResult_ok :: "string \<times> string list \<Rightarrow> bool" where
  "ReplacementResult_ok out = (snd out \<noteq> [])"

text \<open>
  The oracle step: a reply is taken when the schema accepts it and the chosen identity
  is neither avoided nor picked before. Otherwise a candidate is drawn among the rows
  that are not excluded, and the first rows become the suggestions.
\<close>

definition agentAccepted :: "(string \<Rightarrow> string) \<Rightarrow> string set \<Rightarrow> string set \<Rightarrow> replace_reply \<Rightarrow> bool" where
  "agentAccepted lc avoid previouslySelectedSet reply =
     (case reply of
        None \<Rightarrow> False
      | Some out \<Rightarrow>
          ReplacementResult_ok out \<and> matchKey lc (fst out) \<notin> avoid \<and>
          matchKey lc (fst out) \<notin> previouslySelectedSet)"

definition chooseReplacement ::
  "(string \<Rightarrow> string) \<Rightarrow> replace_request \<Rightarrow> string option list \<Rightarrow> replace_reply \<Rightarrow> string option \<times> string option list" where
  "chooseReplacement lc rq slim reply =
     (let avoid = toSet lc (rq_avoidIds rq);
          previouslySelectedSet = toSet lc (rq_previouslySelected rq)
      in if agentAccepted lc avoid previouslySelectedSet reply
         then (Some (fst (the reply)), map Some (snd (the reply)))
         else
           (let valid = filter (\<lambda>i. idKey lc i \<notin> avoid \<and> idKey lc i \<notin> previouslySelectedSet) slim;
                validCandidates = (if valid = [] then slim else valid);
                chosenId = validCandidates ! (rq_random rq mod length validCandidates)
            in (chosenId,
                filter (\<lambda>i. i \<noteq> chosenId) (take (min (rq_topK rq) 6) slim))))"

text \<open>
  The suggestions of the response: those of the oracle step that are not excluded and
  are not the replacement, resolved where possible, at most \<open>topK\<close>; then filled up from
  the candidate rows.
\<close>

definition suggestionsOut ::
  "(string \<Rightarrow> string) \<Rightarrow> track list \<Rightarrow> string set \<Rightarrow> string set \<Rightarrow> nat \<Rightarrow> string option \<Rightarrow> string option list \<Rightarrow>
   string option list \<Rightarrow> string option list" where
  "suggestionsOut lc ws avoid previouslySelectedSet topK replacementId suggestions slim =
     (let kept =
            filter (\<lambda>i. idKey lc i \<notin> avoid \<and> idKey lc i \<notin> previouslySelectedSet \<and>
                        idKey lc i \<noteq> idKey lc replacementId) suggestions;
          resolved =
            take topK (map (\<lambda>i. case resolveId lc ws i of Some t \<Rightarrow> getId t | None \<Rightarrow> i) kept);
          additional =
            take (topK - length resolved)
              (filter (\<lambda>i. idKey lc i \<notin> avoid \<and> idKey lc i \<notin> previouslySelectedSet \<and>
                            idKey lc i \<noteq> idKey lc replacementId \<and>
                            idKey lc i \<notin> set (map (idKey lc) resolved)) slim)
      in if length resolved < topK then resolved @ additional else resolved)"

text \<open>
  The route. The result is the identity of the replacement and the identities of the
  suggestions, or the status of the error response: 400 without a style, 422 with an
  empty working set, 404 without candidates, and 500 for an exception, which the log
  line on the first three pool rows throws when one of them has no identity
  (\<^verbatim>\<open>getId(t).substring\<close>), or for a chosen track that cannot be resolved or is avoided.
\<close>

definition replaceRoute ::
  "(string \<Rightarrow> string) \<Rightarrow> replace_request \<Rightarrow> replace_reply \<Rightarrow>
   replace_error + (string option \<times> string option list)" where
  "replaceRoute lc rq reply =
     (if rq_style rq = [] then Inl Status400
      else if rq_workingSet rq = [] then Inl Status422
      else if \<exists>t\<in>set (take 3 (scoredPool lc rq)). getId t = None then Inl Status500
      else
        (let ws = rq_workingSet rq;
             avoid = toSet lc (rq_avoidIds rq);
             previouslySelectedSet = toSet lc (rq_previouslySelected rq);
             slim = replaceSlim lc rq
         in if slim = [] then Inl Status404
            else
              (let (chosenId, suggestions) = chooseReplacement lc rq slim reply;
                   chosen =
                     (case resolveId lc ws chosenId of
                        Some t \<Rightarrow> Some t
                      | None \<Rightarrow> resolveId lc ws (hd slim))
               in case chosen of
                    None \<Rightarrow> Inl Status500
                  | Some tr \<Rightarrow>
                      if idKey lc (getId tr) \<in> avoid then Inl Status500
                      else
                        Inr (getId tr,
                             suggestionsOut lc ws avoid previouslySelectedSet (rq_topK rq)
                               (getId tr) suggestions slim))))"

text \<open>
  Scenario D: five Tango tracks of one origin; the current group holds \<open>a\<close>, and \<open>b\<close>
  was picked before for this position.
\<close>

definition scenarioD :: replace_request where
  "scenarioD =
     \<lparr>rq_workingSet = [demoTrack ''a.mp3'' ''X'' ''Tango'' 200, demoTrack ''b.mp3'' ''X'' ''Tango'' 200,
                       demoTrack ''c.mp3'' ''X'' ''Tango'' 200, demoTrack ''d.mp3'' ''X'' ''Tango'' 200,
                       demoTrack ''e.mp3'' ''X'' ''Tango'' 200],
      rq_style = ''Tango'', rq_orchestra = Some ''X'', rq_avoidIds = [''A.MP3''],
      rq_previouslySelected = [''b.wav''], rq_topK = 6, rq_homogenize = False,
      rq_score = (\<lambda>t. 0), rq_random = 0\<rparr>"

section \<open>Properties of the Camelot distance\<close>

lemma indexOf_bounds: "x \<in> set xs \<Longrightarrow> 0 \<le> indexOf xs x \<and> indexOf xs x < int (length xs)"
  by (induction xs) (auto simp: Let_def)

lemma indexOf_absent: "x \<notin> set xs \<Longrightarrow> indexOf xs x = -1"
  by (induction xs) (auto simp: Let_def)

lemma length_CAMELOT_ORDER: "length CAMELOT_ORDER = 24"
  by (simp add: CAMELOT_ORDER_def)

lemma on_wheel_truthy: "k \<in> set CAMELOT_ORDER \<Longrightarrow> truthy (Some k)"
  by (auto simp: CAMELOT_ORDER_def)

text \<open>
  Claim C8, as amended. The distance is symmetric for all arguments. For keys on the
  wheel the distance of a key to itself is 0 and no distance exceeds 12. A missing key or
  a key that is not on the wheel gives the sentinel 99 (also against itself).
\<close>

theorem camelotDistance_wheel:
  "camelotDistance a b = camelotDistance b a \<and>
   (k \<in> set CAMELOT_ORDER \<longrightarrow> camelotDistance (Some k) (Some k) = 0) \<and>
   (x \<in> set CAMELOT_ORDER \<and> y \<in> set CAMELOT_ORDER \<longrightarrow>
      0 \<le> camelotDistance (Some x) (Some y) \<and> camelotDistance (Some x) (Some y) \<le> 12) \<and>
   (\<not> truthy a \<or> \<not> truthy b \<or> the a \<notin> set CAMELOT_ORDER \<or> the b \<notin> set CAMELOT_ORDER
      \<longrightarrow> camelotDistance a b = 99)"
proof (intro conjI impI)
  show "camelotDistance a b = camelotDistance b a"
    by (auto simp: camelotDistance_def Let_def abs_minus_commute)
next
  assume "k \<in> set CAMELOT_ORDER"
  then show "camelotDistance (Some k) (Some k) = 0"
    using indexOf_bounds [of k CAMELOT_ORDER] on_wheel_truthy [of k]
    by (simp add: camelotDistance_def Let_def)
next
  assume xy: "x \<in> set CAMELOT_ORDER \<and> y \<in> set CAMELOT_ORDER"
  then have bx: "0 \<le> indexOf CAMELOT_ORDER x \<and> indexOf CAMELOT_ORDER x < 24"
    and judge: "0 \<le> indexOf CAMELOT_ORDER y \<and> indexOf CAMELOT_ORDER y < 24"
    using indexOf_bounds [of x CAMELOT_ORDER] indexOf_bounds [of y CAMELOT_ORDER]
    by (simp_all add: length_CAMELOT_ORDER)
  from xy have t: "truthy (Some x)" "truthy (Some y)"
    by (blast intro: on_wheel_truthy)+
  show "0 \<le> camelotDistance (Some x) (Some y)"
    using bx judge t unfolding camelotDistance_def Let_def by (simp del: truthy.simps) linarith
  show "camelotDistance (Some x) (Some y) \<le> 12"
    using bx judge t unfolding camelotDistance_def Let_def by (simp del: truthy.simps)
next
  assume "\<not> truthy a \<or> \<not> truthy b \<or> the a \<notin> set CAMELOT_ORDER \<or> the b \<notin> set CAMELOT_ORDER"
  then show "camelotDistance a b = 99"
    by (auto simp: camelotDistance_def Let_def indexOf_absent)
qed

theorem camelotDistance_wheel_witness:
  "''8A'' \<in> set CAMELOT_ORDER \<and> ''3B'' \<in> set CAMELOT_ORDER \<and>
   camelotDistance (Some ''8A'') (Some ''8A'') = 0 \<and>
   camelotDistance (Some ''8A'') (Some ''3B'') = camelotDistance (Some ''3B'') (Some ''8A'') \<and>
   camelotDistance (Some ''8A'') (Some ''3B'') \<le> 12 \<and>
   camelotDistance (Some ''13A'') None = 99"
proof -
  have m: "''8A'' \<in> set CAMELOT_ORDER" "''3B'' \<in> set CAMELOT_ORDER"
    by (simp_all add: CAMELOT_ORDER_def)
  have n: "\<not> truthy None" by simp
  show ?thesis
    using m n
      camelotDistance_wheel [of "Some ''8A''" "Some ''3B''" "''8A''" "''8A''" "''3B''"]
      camelotDistance_wheel [of "Some ''13A''" None "''8A''" "''8A''" "''3B''"]
    by simp
qed

text \<open>
  Claim C8 as stated quantifies over all key arguments: it fails for a key that is not a
  wheel position, whose distance to itself is the sentinel 99.
\<close>

theorem camelotDistance_off_wheel_counterexample:
  "\<not> (camelotDistance (Some ''13A'') (Some ''13A'') = 0 \<and>
      camelotDistance (Some ''13A'') (Some ''13A'') \<le> 12)"
  by (simp add: camelotDistance_def CAMELOT_ORDER_def)

section \<open>Properties of the duration parsers\<close>

lemma num_or_first: "num_or a b = (case filter (\<lambda>r. r \<noteq> 0) [a, b] of [] \<Rightarrow> 0 | r # _ \<Rightarrow> r)"
  by (simp add: num_or_def)

lemma durationSec_first:
  "durationSec pf nm t =
     (case filter (\<lambda>r. r \<noteq> 0)
             (map (toSeconds pf nm)
                [audio_duration t, format_durationSec t, top_duration t, top_durationMs t,
                 top_length t]) of
        [] \<Rightarrow> 0
      | r # _ \<Rightarrow> r)"
  by (simp add: durationSec_def num_or_def)

lemma getTrackSeconds_first:
  "getTrackSeconds pf nm t =
     (case filter (\<lambda>r. r \<noteq> 0)
             (map (toSeconds_lib pf nm)
                [audio_duration t, top_duration t, top_durationMs t, top_length t]) of
        [] \<Rightarrow> 0
      | r # _ \<Rightarrow> r)"
  by (simp add: getTrackSeconds_def num_or_def)

lemma round_7200: "Math_round (7200 / 1000) = 7"
  by (simp add: Math_round_def round_def floor_eq_iff)

text \<open>
  Claim C10, as amended. The parsers \<^verbatim>\<open>toSeconds\<close> of generate.js, \<^verbatim>\<open>toSeconds\<close> of
  dj-lib.js and \<^verbatim>\<open>durationSecSafe\<close> read a finite number above 6000 as milliseconds, giving
  round(v/1000), and a finite number of at most 6000 as seconds, giving round(v).
  \<^verbatim>\<open>durationSec\<close>, from which the streaming assembler takes the seconds of its groups and
  of the tracks it reports, and \<^verbatim>\<open>getTrackSeconds\<close>, from which the fallback planner of
  dj-lib.js takes them, give the first reading that is not 0 of their parser over the
  duration fields of the track; so the first field decides when it is a number whose
  reading is not 0, and 7200 seconds (two hours) are read as 7 seconds.
\<close>

theorem duration_threshold_6000:
  "toSeconds pf nm (JNum v) = (if v > 6000 then Math_round (v / 1000) else Math_round v) \<and>
   toSeconds_lib pf nm (JNum v) = (if v > 6000 then Math_round (v / 1000) else Math_round v) \<and>
   (durationSecSafe_value t = JNum v \<longrightarrow>
      durationSecSafe pf nm t = (if v > 6000 then Math_round (v / 1000) else Math_round v)) \<and>
   durationSec pf nm t =
     (case filter (\<lambda>r. r \<noteq> 0)
             (map (toSeconds pf nm)
                [audio_duration t, format_durationSec t, top_duration t, top_durationMs t,
                 top_length t]) of
        [] \<Rightarrow> 0
      | r # _ \<Rightarrow> r) \<and>
   getTrackSeconds pf nm t =
     (case filter (\<lambda>r. r \<noteq> 0)
             (map (toSeconds_lib pf nm)
                [audio_duration t, top_duration t, top_durationMs t, top_length t]) of
        [] \<Rightarrow> 0
      | r # _ \<Rightarrow> r) \<and>
   (audio_duration t = JNum v \<and>
    (if v > 6000 then Math_round (v / 1000) else Math_round v) \<noteq> 0 \<longrightarrow>
      durationSec pf nm t = (if v > 6000 then Math_round (v / 1000) else Math_round v) \<and>
      getTrackSeconds pf nm t = (if v > 6000 then Math_round (v / 1000) else Math_round v)) \<and>
   (nullish (audio_duration t) \<and> format_durationSec t = JNum v \<and>
    (if v > 6000 then Math_round (v / 1000) else Math_round v) \<noteq> 0 \<longrightarrow>
      durationSec pf nm t = (if v > 6000 then Math_round (v / 1000) else Math_round v)) \<and>
   toSeconds pf nm (JNum 7200) = 7 \<and> toSeconds_lib pf nm (JNum 7200) = 7 \<and>
   toSeconds pf nm (JNum 6000) = 6000 \<and> toSeconds_lib pf nm (JNum 6000) = 6000"
proof -
  have n: "nullish (audio_duration t) \<Longrightarrow> toSeconds pf nm (audio_duration t) = 0"
    by (cases "audio_duration t") simp_all
  have a: "toSeconds pf nm (JNum v) = (if v > 6000 then Math_round (v / 1000) else Math_round v)"
    "toSeconds_lib pf nm (JNum v) = (if v > 6000 then Math_round (v / 1000) else Math_round v)"
    by simp_all
  have b: "durationSecSafe_value t = JNum v \<longrightarrow>
      durationSecSafe pf nm t = (if v > 6000 then Math_round (v / 1000) else Math_round v)"
    by (simp add: durationSecSafe_def)
  have c: "audio_duration t = JNum v \<and>
    (if v > 6000 then Math_round (v / 1000) else Math_round v) \<noteq> 0 \<longrightarrow>
      durationSec pf nm t = (if v > 6000 then Math_round (v / 1000) else Math_round v) \<and>
      getTrackSeconds pf nm t = (if v > 6000 then Math_round (v / 1000) else Math_round v)"
    by (simp add: durationSec_def getTrackSeconds_def num_or_def)
  have d: "nullish (audio_duration t) \<and> format_durationSec t = JNum v \<and>
    (if v > 6000 then Math_round (v / 1000) else Math_round v) \<noteq> 0 \<longrightarrow>
      durationSec pf nm t = (if v > 6000 then Math_round (v / 1000) else Math_round v)"
    using n by (simp add: durationSec_def num_or_def)
  have e: "toSeconds pf nm (JNum 7200) = 7" "toSeconds_lib pf nm (JNum 7200) = 7"
    "toSeconds pf nm (JNum 6000) = 6000" "toSeconds_lib pf nm (JNum 6000) = 6000"
    using round_7200 by (simp_all add: Math_round_def)
  show ?thesis
    using a b c d e durationSec_first [of pf nm t] getTrackSeconds_first [of pf nm t]
    by blast
qed

theorem duration_threshold_6000_witness:
  "durationSecSafe_value
     \<lparr>audio_duration = JUndefined, tags_durationSec = JNull, format_durationSec = JNum 7200,
      top_durationSec = JUndefined, top_duration = JNum 180, top_durationMs = JUndefined,
      top_length = JUndefined\<rparr> = JNum 7200 \<and>
   durationSecSafe (\<lambda>s. 0) (\<lambda>s. None)
     \<lparr>audio_duration = JUndefined, tags_durationSec = JNull, format_durationSec = JNum 7200,
      top_durationSec = JUndefined, top_duration = JNum 180, top_durationMs = JUndefined,
      top_length = JUndefined\<rparr> = 7 \<and>
   durationSec (\<lambda>s. 0) (\<lambda>s. None)
     \<lparr>audio_duration = JUndefined, tags_durationSec = JNull, format_durationSec = JNum 7200,
      top_durationSec = JUndefined, top_duration = JNum 180, top_durationMs = JUndefined,
      top_length = JUndefined\<rparr> = 7 \<and>
   durationSec (\<lambda>s. 0) (\<lambda>s. None)
     \<lparr>audio_duration = JNum 7200, tags_durationSec = JNull, format_durationSec = JNum 200,
      top_durationSec = JUndefined, top_duration = JNum 180, top_durationMs = JUndefined,
      top_length = JUndefined\<rparr> = 7 \<and>
   getTrackSeconds (\<lambda>s. 0) (\<lambda>s. None)
     \<lparr>audio_duration = JNum 7200, tags_durationSec = JNull, format_durationSec = JNum 200,
      top_durationSec = JUndefined, top_duration = JNum 180, top_durationMs = JUndefined,
      top_length = JUndefined\<rparr> = 7"
proof -
  define t1 where "t1 =
     \<lparr>audio_duration = JUndefined, tags_durationSec = JNull, format_durationSec = JNum 7200,
      top_durationSec = JUndefined, top_duration = JNum 180, top_durationMs = JUndefined,
      top_length = JUndefined\<rparr>"
  define t2 where "t2 =
     \<lparr>audio_duration = JNum 7200, tags_durationSec = JNull, format_durationSec = JNum 200,
      top_durationSec = JUndefined, top_duration = JNum 180, top_durationMs = JUndefined,
      top_length = JUndefined\<rparr>"
  have v: "durationSecSafe_value t1 = JNum 7200"
    by (simp add: durationSecSafe_value_def nullish_or_def t1_def)
  have n1: "nullish (audio_duration t1) \<and> format_durationSec t1 = JNum 7200"
    by (simp add: t1_def)
  have n2: "audio_duration t2 = JNum 7200"
    by (simp add: t2_def)
  have r: "(if (7200::rat) > 6000 then Math_round (7200 / 1000) else Math_round 7200) = 7"
    "(7::rat) \<noteq> 0"
    using round_7200 by simp_all
  show ?thesis
    using v n1 n2 r
      duration_threshold_6000 [of "\<lambda>s. 0" "\<lambda>s. None" 7200 t1]
      duration_threshold_6000 [of "\<lambda>s. 0" "\<lambda>s. None" 7200 t2]
    unfolding t1_def [symmetric] t2_def [symmetric] by metis
qed

text \<open>
  Claim C10 as stated speaks of every duration parser used for the budget and for the
  reported seconds. The deterministic planner \<^verbatim>\<open>makePlan\<close> charges its time budget with
  \<^verbatim>\<open>durMin\<close>, and the compact catalog reports the seconds of a track through
  \<^verbatim>\<open>toCompactTrack\<close>; both read the field as seconds whatever its size: 12000 counts as
  200 minutes, not as 12 seconds, and 7200 is reported as 7200.
\<close>

theorem duration_threshold_counterexample:
  "durMin (Some 12000) = 200 \<and>
   durMin (Some 12000) \<noteq> max 2 (Math_round (12000 / 1000) / 60) \<and>
   compactDurationSec (JNum 7200) = Some 7200 \<and>
   compactDurationSec (JNum 7200) \<noteq> Some (Math_round (7200 / 1000))"
proof -
  have a: "Math_round (12000 / 1000) = 12" "Math_round 7200 = 7200"
    by (simp_all add: Math_round_def)
  show ?thesis
    using a round_7200 by (simp add: durMin_def)
qed

section \<open>Properties of the group planner\<close>


lemma retry_alternatives_best:
  "retry_alternatives nz oracle sz cs al n alts lastR = (r, evs) \<Longrightarrow>
   countReal lastR \<le> countReal r \<and> (r = None \<longrightarrow> lastR = None)"
proof (induction alts arbitrary: n lastR r evs)
  case Nil
  then show ?case by simp
next
  case (Cons a alts)
  then show ?case
    by (fastforce simp: Let_def split: option.splits prod.splits if_splits)
qed








text \<open>
  Claim C7. When an origin is asked for and fewer candidates than the group size match
  it, the list the oracle is called with is (the first 80 rows of) the broader style pool
  the caller supplied, or of the unrestricted candidate list when no broader pool was
  supplied or it is empty; the result of the call is the reply of the oracle to that
  list, padded to the group size.
\<close>

theorem origin_restriction_widens:
  "orchestra = Some orch \<Longrightarrow> orch \<noteq> [] \<Longrightarrow> orch \<noteq> ''any orchestra'' \<Longrightarrow>
   length (filter (\<lambda>t. nz (c_artist t) = nz orch) candidates) < sz \<Longrightarrow>
   call_candidates (planOneTanda nz oracle n sz candidates allStyle orchestra) =
     take 80 (case allStyle of
                Some a \<Rightarrow> if a = [] then candidates else a
              | None \<Rightarrow> candidates) \<and>
   call_trackIds (planOneTanda nz oracle n sz candidates allStyle orchestra) =
     (case oracle n (take 80 (case allStyle of
                                Some a \<Rightarrow> if a = [] then candidates else a
                              | None \<Rightarrow> candidates)) of
        None \<Rightarrow> None
      | Some tracks \<Rightarrow> if NextTanda_ok tracks then Some (pad_replace sz tracks) else None)"
proof -
  assume a: "orchestra = Some orch" "orch \<noteq> []" "orch \<noteq> ''any orchestra''"
    "length (filter (\<lambda>t. nz (c_artist t) = nz orch) candidates) < sz"
  have c: "planOneTanda_candidates nz sz candidates allStyle orchestra =
     take 80 (case allStyle of
                Some a \<Rightarrow> if a = [] then candidates else a
              | None \<Rightarrow> candidates)"
    using a
    by (auto simp: planOneTanda_candidates_def orchestra_given_def
          broadening_threshold_def Let_def split: option.splits)
  show ?thesis
    unfolding planOneTanda_def Let_def c by simp
qed

theorem origin_restriction_widens_witness:
  "length (filter (\<lambda>t. (\<lambda>s. s) (c_artist t) = (\<lambda>s. s) ''Y'')
      [\<lparr>c_id = Some ''a'', c_artist = ''X''\<rparr>, \<lparr>c_id = Some ''b'', c_artist = ''Y''\<rparr>]) < 3 \<and>
   call_candidates (planOneTanda (\<lambda>s. s)
      (\<lambda>n cs. if cs = [\<lparr>c_id = Some ''a'', c_artist = ''X''\<rparr>, \<lparr>c_id = Some ''b'', c_artist = ''Y''\<rparr>,
                        \<lparr>c_id = Some ''c'', c_artist = ''Z''\<rparr>]
               then Some [''b'', ''c''] else None) 0 3
      [\<lparr>c_id = Some ''a'', c_artist = ''X''\<rparr>, \<lparr>c_id = Some ''b'', c_artist = ''Y''\<rparr>]
      (Some [\<lparr>c_id = Some ''a'', c_artist = ''X''\<rparr>, \<lparr>c_id = Some ''b'', c_artist = ''Y''\<rparr>,
             \<lparr>c_id = Some ''c'', c_artist = ''Z''\<rparr>])
      (Some ''Y'')) =
     [\<lparr>c_id = Some ''a'', c_artist = ''X''\<rparr>, \<lparr>c_id = Some ''b'', c_artist = ''Y''\<rparr>,
      \<lparr>c_id = Some ''c'', c_artist = ''Z''\<rparr>] \<and>
   call_trackIds (planOneTanda (\<lambda>s. s)
      (\<lambda>n cs. if cs = [\<lparr>c_id = Some ''a'', c_artist = ''X''\<rparr>, \<lparr>c_id = Some ''b'', c_artist = ''Y''\<rparr>,
                        \<lparr>c_id = Some ''c'', c_artist = ''Z''\<rparr>]
               then Some [''b'', ''c''] else None) 0 3
      [\<lparr>c_id = Some ''a'', c_artist = ''X''\<rparr>, \<lparr>c_id = Some ''b'', c_artist = ''Y''\<rparr>]
      (Some [\<lparr>c_id = Some ''a'', c_artist = ''X''\<rparr>, \<lparr>c_id = Some ''b'', c_artist = ''Y''\<rparr>,
             \<lparr>c_id = Some ''c'', c_artist = ''Z''\<rparr>])
      (Some ''Y'')) = Some [''b'', ''c'', ''replace'']"
proof -
  have l: "length (filter (\<lambda>t. (\<lambda>s. s) (c_artist t) = (\<lambda>s. s) ''Y'')
      [\<lparr>c_id = Some ''a'', c_artist = ''X''\<rparr>, \<lparr>c_id = Some ''b'', c_artist = ''Y''\<rparr>]) < 3"
    by simp
  have p: "pad_replace 3 [''b'', ''c''] = [''b'', ''c'', ''replace'']" "NextTanda_ok [''b'', ''c'']"
    by (simp_all add: pad_replace_def NextTanda_ok_def)
  show ?thesis
    using l p
      origin_restriction_widens [of "Some ''Y''" "''Y''" "\<lambda>s. s"
        "[\<lparr>c_id = Some ''a'', c_artist = ''X''\<rparr>, \<lparr>c_id = Some ''b'', c_artist = ''Y''\<rparr>]" 3
        "\<lambda>n cs. if cs = [\<lparr>c_id = Some ''a'', c_artist = ''X''\<rparr>, \<lparr>c_id = Some ''b'', c_artist = ''Y''\<rparr>,
                        \<lparr>c_id = Some ''c'', c_artist = ''Z''\<rparr>]
               then Some [''b'', ''c''] else None" 0
        "Some [\<lparr>c_id = Some ''a'', c_artist = ''X''\<rparr>, \<lparr>c_id = Some ''b'', c_artist = ''Y''\<rparr>,
               \<lparr>c_id = Some ''c'', c_artist = ''Z''\<rparr>]"]
    by simp
qed

section \<open>Properties of identity normalization\<close>

lemma char_eq_code: "(c = d) \<longleftrightarrow> (of_char c :: nat) = of_char d"
  by (metis char_of_char)

lemma code_toLowerChar:
  "(of_char (toLowerChar c) :: nat) =
     (if 65 \<le> (of_char c :: nat) \<and> (of_char c :: nat) \<le> 90 then of_char c + 32 else of_char c)"
  by (simp add: toLowerChar_def Let_def)

lemma code_backslash_to_slash:
  "(of_char (backslash_to_slash c) :: nat) = (if (of_char c :: nat) = 92 then 47 else of_char c)"
  by (simp add: backslash_to_slash_def char_eq_code)

lemma toLowerChar_idem: "toLowerChar (toLowerChar c) = toLowerChar c"
  by (simp add: char_eq_code code_toLowerChar)

lemma lowerASCII_idem: "lowerASCII (lowerASCII s) = lowerASCII s"
  by (simp add: lowerASCII_def toLowerChar_idem)

lemma lower_slash_commute: "toLowerChar (backslash_to_slash c) = backslash_to_slash (toLowerChar c)"
  by (simp add: char_eq_code code_toLowerChar code_backslash_to_slash)

lemma slash_idem: "backslash_to_slash (backslash_to_slash c) = backslash_to_slash c"
  by (simp add: char_eq_code code_backslash_to_slash)

lemma uri_tokens_no_percent: "CHR ''%'' \<notin> set s \<Longrightarrow> uri_tokens s = Some (map Lit s)"
  by (induction s) auto

lemma utf8_octets_Lit: "utf8_octets 0 lo hi (map Lit s) = Some s"
  by (induction s arbitrary: lo hi) auto

lemma decode_no_percent: "CHR ''%'' \<notin> set s \<Longrightarrow> decodeURIComponent s = Some s"
  by (simp add: decodeURIComponent_def uri_tokens_no_percent utf8_octets_Lit)

lemma prefix_map_fixed:
  assumes "\<forall>c\<in>set w. \<forall>d. (f d = c) = (d = c)"
  shows "prefix w (map f s) = prefix w s"
  using assms
proof (induction w arbitrary: s)
  case Nil
  then show ?case by simp
next
  case (Cons a w)
  show ?case
  proof (cases s)
    case Nil
    then show ?thesis by simp
  next
    case (Cons b t)
    have "(f b = a) = (b = a)" using Cons.prems by simp
    moreover have "prefix w (map f t) = prefix w t"
      using Cons.IH Cons.prems by simp
    ultimately show ?thesis using Cons by auto
  qed
qed

lemma ws_prefix_len_map:
  assumes "\<forall>w\<in>set ws. \<forall>c\<in>set w. \<forall>d. (f d = c) = (d = c)"
  shows "ws_prefix_len ws (map f s) = ws_prefix_len ws s"
  using assms
proof (induction ws)
  case Nil
  then show ?case by simp
next
  case (Cons w ws)
  have "prefix w (map f s) = prefix w s"
    using Cons.prems by (intro prefix_map_fixed) simp
  then show ?case using Cons by simp
qed

lemma trimWith_map:
  assumes "\<forall>w\<in>set ws. \<forall>c\<in>set w. \<forall>d. (f d = c) = (d = c)"
  shows "trimWith ws (map f s) = map f (trimWith ws s)"
  using assms
proof (induction ws s rule: trimWith.induct)
  case (1 ws s)
  have l: "ws_prefix_len ws (map f s) = ws_prefix_len ws s"
    using "1.prems" by (rule ws_prefix_len_map)
  show ?case
  proof (cases "ws_prefix_len ws s = 0 \<or> s = []")
    case True
    then show ?thesis using l by (simp add: trimWith.simps [of ws s] trimWith.simps [of ws "map f s"])
  next
    case False
    then have "trimWith ws (map f (drop (ws_prefix_len ws s) s)) =
               map f (trimWith ws (drop (ws_prefix_len ws s) s))"
      using "1.IH" "1.prems" by blast
    then show ?thesis
      using False l
      by (simp add: trimWith.simps [of ws s] trimWith.simps [of ws "map f s"] drop_map)
  qed
qed

lemma js_whitespace_codes:
  "list_all (list_all (\<lambda>c. (of_char c :: nat) \<in> {9, 10, 11, 12, 13, 32} \<or> 128 \<le> (of_char c :: nat)))
     js_whitespace"
  by code_simp

lemma js_whitespace_rev_codes:
  "list_all (list_all (\<lambda>c. (of_char c :: nat) \<in> {9, 10, 11, 12, 13, 32} \<or> 128 \<le> (of_char c :: nat)))
     (map rev js_whitespace)"
  by code_simp


lemma toLowerChar_fixes_ws:
  assumes "(of_char c :: nat) \<in> {9, 10, 11, 12, 13, 32} \<or> 128 \<le> (of_char c :: nat)"
  shows "(toLowerChar d = c) = (d = c)"
proof -
  have "((of_char (toLowerChar d) :: nat) = of_char c) = ((of_char d :: nat) = of_char c)"
    using assms unfolding code_toLowerChar by auto
  then show ?thesis
    by (simp only: char_eq_code [of "toLowerChar d" c] char_eq_code [of d c])
qed

lemma slash_fixes_ws:
  assumes "(of_char c :: nat) \<in> {9, 10, 11, 12, 13, 32} \<or> 128 \<le> (of_char c :: nat)"
  shows "(backslash_to_slash d = c) = (d = c)"
proof -
  have "((of_char (backslash_to_slash d) :: nat) = of_char c) = ((of_char d :: nat) = of_char c)"
    using assms unfolding code_backslash_to_slash by auto
  then show ?thesis
    by (simp only: char_eq_code [of "backslash_to_slash d" c] char_eq_code [of d c])
qed

lemma trim_map:
  assumes "\<And>c d. (of_char c :: nat) \<in> {9, 10, 11, 12, 13, 32} \<or> 128 \<le> (of_char c :: nat) \<Longrightarrow>
             (f d = c) = (d = c)"
  shows "trim (map f s) = map f (trim s)"
proof -
  have a: "\<forall>w\<in>set js_whitespace. \<forall>c\<in>set w. \<forall>d. (f d = c) = (d = c)"
    using js_whitespace_codes assms unfolding list_all_iff by blast
  have b: "\<forall>w\<in>set (map rev js_whitespace). \<forall>c\<in>set w. \<forall>d. (f d = c) = (d = c)"
    using js_whitespace_rev_codes assms unfolding list_all_iff by blast
  show ?thesis
    unfolding trim_def trimStart_def trimEnd_def
    by (simp add: trimWith_map [OF a] trimWith_map [OF b] rev_map)
qed

lemma trim_lowerASCII: "trim (lowerASCII s) = lowerASCII (trim s)"
  unfolding lowerASCII_def by (rule trim_map) (rule toLowerChar_fixes_ws)

lemma trim_slash: "trim (map backslash_to_slash s) = map backslash_to_slash (trim s)"
  by (rule trim_map) (rule slash_fixes_ws)

lemma map_option_cons:
  "map_option (map g) (map_option ((#) x) A) = map_option ((#) (g x)) (map_option (map g) A)"
  by (cases A) auto

lemma uri_tokens_map:
  assumes pc: "\<And>c. (f c = CHR ''%'') = (c = CHR ''%'')" and hx: "\<And>c. hexval (f c) = hexval c"
  shows "uri_tokens (map f s) = map_option (map (map_tok f)) (uri_tokens s)"
proof (induction "length s" arbitrary: s rule: less_induct)
  case less
  show ?case
  proof (cases s)
    case Nil
    then show ?thesis by simp
  next
    case (Cons c cs)
    show ?thesis
    proof (cases "c = CHR ''%''")
      case False
      have "uri_tokens (map f cs) = map_option (map (map_tok f)) (uri_tokens cs)"
        using less [of cs] Cons by simp
      then show ?thesis
        using False Cons pc [of c] by (cases "uri_tokens cs") auto
    next
      case True
      show ?thesis
      proof (cases cs)
        case Nil
        then show ?thesis using True Cons pc [of c] by simp
      next
        case c1: (Cons h1 t1)
        show ?thesis
        proof (cases t1)
          case Nil
          then show ?thesis using True Cons c1 pc [of c] by simp
        next
          case c2: (Cons h2 rest)
          have ih: "uri_tokens (map f rest) = map_option (map (map_tok f)) (uri_tokens rest)"
            using less [of rest] Cons c1 c2 by simp
          show ?thesis
            using True Cons c1 c2 ih pc [of c] hx [of h1] hx [of h2]
            by (cases "hexval h1"; cases "hexval h2"; cases "uri_tokens rest") auto
        qed
      qed
    qed
  qed
qed

lemma utf8_octets_map:
  assumes "\<And>c. g (f c) = g c"
  shows "map_option (map g) (utf8_octets n lo hi (map (map_tok f) ts)) =
         map_option (map g) (utf8_octets n lo hi ts)"
proof (induction ts arbitrary: n lo hi)
  case Nil
  then show ?case by simp
next
  case (Cons t ts)
  have ih: "\<And>n lo hi. map_option (map g) (utf8_octets n lo hi (map (map_tok f) ts)) =
          map_option (map g) (utf8_octets n lo hi ts)"
    by (rule Cons.IH)
  show ?case
  proof (cases t)
    case (Lit c)
    then show ?thesis
      using assms by (simp add: map_option_cons ih)
  next
    case (Esc b)
    then show ?thesis
      by (simp add: map_option_cons ih)
  qed
qed

lemma decode_map:
  assumes pc: "\<And>c. (f c = CHR ''%'') = (c = CHR ''%'')" and hx: "\<And>c. hexval (f c) = hexval c"
    and gf: "\<And>c. g (f c) = g c"
  shows "map_option (map g) (decodeURIComponent (map f s)) =
         map_option (map g) (decodeURIComponent s)"
proof (cases "uri_tokens s")
  case None
  then show ?thesis
    by (simp add: decodeURIComponent_def uri_tokens_map [of f, OF pc hx])
next
  case (Some ts)
  then show ?thesis
    using utf8_octets_map [of g f 0 0 0 ts, OF gf]
    by (simp add: decodeURIComponent_def uri_tokens_map [of f, OF pc hx])
qed

lemma decoded_or_self_map:
  assumes pc: "\<And>c. (f c = CHR ''%'') = (c = CHR ''%'')" and hx: "\<And>c. hexval (f c) = hexval c"
    and ff: "\<And>c. f (f c) = f c" and eq: "map f a = map f b"
  shows "map f (case decodeURIComponent a of Some d \<Rightarrow> d | None \<Rightarrow> a) =
         map f (case decodeURIComponent b of Some d \<Rightarrow> d | None \<Rightarrow> b)"
proof -
  have "map_option (map f) (decodeURIComponent a) = map_option (map f) (decodeURIComponent (map f a))"
    using decode_map [of f f a, OF pc hx ff] by simp
  also have "\<dots> = map_option (map f) (decodeURIComponent b)"
    using decode_map [of f f b, OF pc hx ff] eq by simp
  finally have m: "map_option (map f) (decodeURIComponent a) = map_option (map f) (decodeURIComponent b)" .
  show ?thesis
    using m eq by (cases "decodeURIComponent a"; cases "decodeURIComponent b") auto
qed

lemma hexval_toLowerChar: "hexval (toLowerChar c) = hexval c"
  unfolding hexval_def Let_def code_toLowerChar by auto

lemma hexval_slash: "hexval (backslash_to_slash c) = hexval c"
  unfolding hexval_def Let_def code_backslash_to_slash by auto

lemma percent_toLowerChar: "(toLowerChar c = CHR ''%'') = (c = CHR ''%'')"
proof -
  have "((of_char (toLowerChar c) :: nat) = 37) = ((of_char c :: nat) = 37)"
    unfolding code_toLowerChar by auto
  then show ?thesis
    by (simp add: char_eq_code [of "toLowerChar c"] char_eq_code [of c])
qed

lemma percent_slash: "(backslash_to_slash c = CHR ''%'') = (c = CHR ''%'')"
  by (auto simp: backslash_to_slash_def)

lemma has_file_prefix_lower:
  "lowerASCII a = lowerASCII b \<Longrightarrow> has_file_prefix a = has_file_prefix b"
  unfolding has_file_prefix_def lowerASCII_def by (simp add: take_map [symmetric] del: take_map)

lemma strip_file_prefix_lower:
  assumes "lowerASCII a = lowerASCII b"
  shows "lowerASCII (strip_file_prefix a) = lowerASCII (strip_file_prefix b)"
proof -
  have "map toLowerChar (drop 7 a) = map toLowerChar (drop 7 b)"
    using assms unfolding lowerASCII_def by (metis drop_map)
  then show ?thesis
    using assms has_file_prefix_lower [OF assms]
    unfolding strip_file_prefix_def lowerASCII_def by simp
qed

lemma lowerASCII_slash:
  "lowerASCII (map backslash_to_slash u) = map backslash_to_slash (lowerASCII u)"
  by (simp add: lowerASCII_def lower_slash_commute)

lemma norm_alt: "norm' lc s = (if s = [] then [] else lc (beforeLowerCase s))"
  by (simp add: norm'_def beforeLowerCase_def Let_def)

lemma normKey_norm: "normKey lc s = norm' lc s"
  by (simp add: normKey_def norm'_def Let_def)

lemma beforeLowerCase_case_variants:
  assumes "lowerASCII x = lowerASCII y"
  shows "lowerASCII (beforeLowerCase x) = lowerASCII (beforeLowerCase y)"
proof -
  have t: "lowerASCII (trim x) = lowerASCII (trim y)"
    using assms by (simp add: trim_lowerASCII [symmetric])
  have s: "map toLowerChar (strip_file_prefix (trim x)) = map toLowerChar (strip_file_prefix (trim y))"
    using strip_file_prefix_lower [OF t] by (simp add: lowerASCII_def)
  have d: "map toLowerChar (case decodeURIComponent (strip_file_prefix (trim x)) of
               Some d \<Rightarrow> d | None \<Rightarrow> strip_file_prefix (trim x)) =
           map toLowerChar (case decodeURIComponent (strip_file_prefix (trim y)) of
               Some d \<Rightarrow> d | None \<Rightarrow> strip_file_prefix (trim y))"
    by (rule decoded_or_self_map [OF percent_toLowerChar hexval_toLowerChar toLowerChar_idem s])
  show ?thesis
    using d unfolding beforeLowerCase_def Let_def lowerASCII_slash
    by (simp add: lowerASCII_def)
qed

lemma lowerASCII_Nil: "(lowerASCII x = []) = (x = [])"
  by (simp add: lowerASCII_def)

lemma norm_ascii_case_variants:
  assumes laws: "lowerCaseLaws lc" and eq: "lowerASCII x = lowerASCII y"
  shows "norm' lc x = norm' lc y"
proof -
  have e: "(x = []) = (y = [])"
    using eq lowerASCII_Nil by metis
  have a: "\<And>s. lc (lowerASCII s) = lc s"
    using laws unfolding lowerCaseLaws_def by blast
  have "lc (beforeLowerCase x) = lc (lowerASCII (beforeLowerCase x))"
    by (simp add: a)
  also have "\<dots> = lc (lowerASCII (beforeLowerCase y))"
    by (simp only: beforeLowerCase_case_variants [OF eq])
  also have "\<dots> = lc (beforeLowerCase y)"
    by (simp add: a)
  finally show ?thesis
    using e by (simp add: norm_alt)
qed

lemma beforeLowerCase_separator_variants:
  assumes "map backslash_to_slash x = map backslash_to_slash y"
    and "has_file_prefix (trim x) = has_file_prefix (trim y)"
  shows "beforeLowerCase x = beforeLowerCase y"
proof -
  have t: "map backslash_to_slash (trim x) = map backslash_to_slash (trim y)"
    using assms(1) by (simp add: trim_slash [symmetric])
  have s: "map backslash_to_slash (strip_file_prefix (trim x)) =
           map backslash_to_slash (strip_file_prefix (trim y))"
  proof -
    have "map backslash_to_slash (drop 7 (trim x)) = map backslash_to_slash (drop 7 (trim y))"
      using t by (metis drop_map)
    then show ?thesis
      using t assms(2) unfolding strip_file_prefix_def by simp
  qed
  show ?thesis
    unfolding beforeLowerCase_def Let_def
    by (rule decoded_or_self_map [OF percent_slash hexval_slash slash_idem s])
qed

lemma norm_separator_variants:
  assumes "map backslash_to_slash x = map backslash_to_slash y"
    and "has_file_prefix (trim x) = has_file_prefix (trim y)"
  shows "norm' lc x = norm' lc y"
proof -
  have e: "(x = []) = (y = [])"
    using assms(1) by (metis map_is_Nil_conv)
  show ?thesis
    using e beforeLowerCase_separator_variants [OF assms] by (simp add: norm_alt)
qed

lemma prefix_append_absent:
  assumes "c \<notin> set w"
  shows "prefix w (p @ c # t) = prefix w p"
proof
  assume "prefix w (p @ c # t)"
  then consider "prefix w p" | us where "w = p @ us" "prefix us (c # t)" "us \<noteq> []"
    unfolding prefix_append by (cases "prefix w p") auto
  then show "prefix w p"
  proof cases
    case 1
    then show ?thesis .
  next
    case 2
    then have "c \<in> set w" by (cases us) auto
    then show ?thesis using assms by simp
  qed
next
  assume "prefix w p"
  then show "prefix w (p @ c # t)" by simp
qed

lemma ws_prefix_len_append_absent:
  assumes "\<forall>w\<in>set ws. c \<notin> set w"
  shows "ws_prefix_len ws (p @ c # t) = ws_prefix_len ws p"
  using assms by (induction ws) (simp_all add: prefix_append_absent)

lemma ws_prefix_len_le: "ws_prefix_len ws p \<le> length p"
  by (induction ws) (auto simp: prefix_length_le)

lemma trimWith_append_absent:
  assumes "\<forall>w\<in>set ws. c \<notin> set w"
  shows "trimWith ws (p @ c # t) = trimWith ws p @ c # t"
  using assms
proof (induction ws p rule: trimWith.induct)
  case (1 ws p)
  have l: "ws_prefix_len ws (p @ c # t) = ws_prefix_len ws p"
    by (rule ws_prefix_len_append_absent [OF "1.prems"])
  show ?case
  proof (cases "ws_prefix_len ws p = 0 \<or> p = []")
    case True
    then have z: "ws_prefix_len ws p = 0"
      using ws_prefix_len_le [of ws p] by auto
    then show ?thesis
      using l by (simp add: trimWith.simps [of ws p] trimWith.simps [of ws "p @ c # t"])
  next
    case False
    then have ih: "trimWith ws (drop (ws_prefix_len ws p) p @ c # t) =
                   trimWith ws (drop (ws_prefix_len ws p) p) @ c # t"
      using "1.IH" "1.prems" by blast
    have d: "drop (ws_prefix_len ws p) (p @ c # t) = drop (ws_prefix_len ws p) p @ c # t"
      using ws_prefix_len_le [of ws p] by simp
    show ?thesis
      using False l ih d
      by (simp add: trimWith.simps [of ws p] trimWith.simps [of ws "p @ c # t"])
  qed
qed

lemma ws_prefix_len_head:
  assumes "\<forall>w\<in>set ws. a \<notin> set w"
  shows "ws_prefix_len ws (a # s) = 0"
  using assms
proof (induction ws)
  case Nil
  then show ?case by simp
next
  case (Cons w ws)
  then have "w \<noteq> [] \<longrightarrow> \<not> prefix w (a # s)"
    by (cases w) auto
  then show ?case using Cons by auto
qed

lemma trimWith_head:
  assumes "\<forall>w\<in>set ws. a \<notin> set w"
  shows "trimWith ws (a # s) = a # s"
  using ws_prefix_len_head [OF assms] by (simp add: trimWith.simps [of ws "a # s"])

lemma ws_char_absent:
  assumes "list_all (list_all (\<lambda>c. (of_char c :: nat) \<in> {9, 10, 11, 12, 13, 32} \<or>
                                    128 \<le> (of_char c :: nat))) ws"
    and "33 \<le> (of_char a :: nat)" "(of_char a :: nat) < 128"
  shows "\<forall>w\<in>set ws. a \<notin> set w"
proof (intro ballI notI)
  fix w assume "w \<in> set ws" "a \<in> set w"
  then have "(of_char a :: nat) \<in> {9, 10, 11, 12, 13, 32} \<or> 128 \<le> (of_char a :: nat)"
    using assms(1) unfolding list_all_iff by blast
  then show False using assms(2,3) by auto
qed

lemma is_alnum_code: "is_alnum a \<Longrightarrow> 33 \<le> (of_char a :: nat) \<and> (of_char a :: nat) < 128"
  unfolding is_alnum_def Let_def by auto

lemma trim_append_ext:
  assumes "e \<noteq> []" "list_all is_alnum e"
  shows "trim (p @ CHR ''.'' # e) = trimStart p @ CHR ''.'' # e"
proof -
  have dot: "\<forall>w\<in>set js_whitespace. CHR ''.'' \<notin> set w"
    by (rule ws_char_absent [OF js_whitespace_codes]) simp_all
  have s: "trimStart (p @ CHR ''.'' # e) = trimStart p @ CHR ''.'' # e"
    unfolding trimStart_def by (rule trimWith_append_absent [OF dot])
  obtain a r where r: "rev (trimStart p @ CHR ''.'' # e) = a # r" "is_alnum a"
    using assms by (cases e rule: rev_cases) (auto simp: list_all_iff)
  have "\<forall>w\<in>set (map rev js_whitespace). a \<notin> set w"
    using is_alnum_code [OF r(2)] by (intro ws_char_absent [OF js_whitespace_rev_codes]) simp_all
  then have "trimWith (map rev js_whitespace) (a # r) = a # r"
    by (rule trimWith_head)
  then have "trimEnd (trimStart p @ CHR ''.'' # e) = trimStart p @ CHR ''.'' # e"
    unfolding trimEnd_def r(1) using r(1) by (metis rev_rev_ident)
  then show ?thesis
    unfolding trim_def s .
qed

lemma has_file_prefix_length: "has_file_prefix p \<Longrightarrow> 7 \<le> length p"
proof -
  assume "has_file_prefix p"
  then have "length (lowerASCII (take 7 p)) = length ''file://''"
    unfolding has_file_prefix_def by simp
  then show ?thesis
    by (simp add: lowerASCII_def)
qed

lemma has_file_prefix_append_dot:
  "has_file_prefix (p @ CHR ''.'' # e) = has_file_prefix p"
proof (cases "7 \<le> length p")
  case True
  then show ?thesis by (simp add: has_file_prefix_def)
next
  case False
  then have a: "\<not> has_file_prefix p"
    using has_file_prefix_length [of p] by blast
  have "take 7 (p @ CHR ''.'' # e) ! length p = CHR ''.''"
    using False by (simp add: nth_append)
  moreover have "length p < length (take 7 (p @ CHR ''.'' # e))"
    using False by simp
  ultimately have "CHR ''.'' \<in> set (take 7 (p @ CHR ''.'' # e))"
    by (metis nth_mem)
  then have "toLowerChar CHR ''.'' \<in> set (lowerASCII (take 7 (p @ CHR ''.'' # e)))"
    unfolding lowerASCII_def set_map by (rule imageI)
  moreover have "toLowerChar CHR ''.'' = CHR ''.''"
    by (simp add: toLowerChar_def)
  ultimately have "CHR ''.'' \<in> set (lowerASCII (take 7 (p @ CHR ''.'' # e)))"
    by simp
  then have "\<not> has_file_prefix (p @ CHR ''.'' # e)"
    unfolding has_file_prefix_def by auto
  then show ?thesis using a by simp
qed

lemma strip_file_prefix_append_dot:
  "strip_file_prefix (p @ CHR ''.'' # e) = strip_file_prefix p @ CHR ''.'' # e"
  using has_file_prefix_length [of p]
  by (simp add: strip_file_prefix_def has_file_prefix_append_dot)

lemma hexval_dot: "hexval CHR ''.'' = None"
  by (simp add: hexval_def)

lemma uri_tokens_append_dot:
  assumes "CHR ''%'' \<notin> set e"
  shows "uri_tokens (q @ CHR ''.'' # e) =
         map_option (\<lambda>ts. ts @ map Lit (CHR ''.'' # e)) (uri_tokens q)"
proof (induction "length q" arbitrary: q rule: less_induct)
  case less
  show ?case
  proof (cases q)
    case Nil
    then show ?thesis
      using uri_tokens_no_percent [of "CHR ''.'' # e"] assms by simp
  next
    case (Cons c cs)
    show ?thesis
    proof (cases "c = CHR ''%''")
      case False
      have "uri_tokens (cs @ CHR ''.'' # e) =
            map_option (\<lambda>ts. ts @ map Lit (CHR ''.'' # e)) (uri_tokens cs)"
        using less [of cs] Cons by simp
      then show ?thesis
        using False Cons by (cases "uri_tokens cs") auto
    next
      case True
      show ?thesis
      proof (cases cs)
        case Nil
        then show ?thesis
          using True Cons by (cases e) (simp_all add: hexval_dot)
      next
        case c1: (Cons h1 t1)
        show ?thesis
        proof (cases t1)
          case Nil
          then show ?thesis
            using True Cons c1 by (cases "hexval h1") (simp_all add: hexval_dot)
        next
          case c2: (Cons h2 rest)
          have ih: "uri_tokens (rest @ CHR ''.'' # e) =
                    map_option (\<lambda>ts. ts @ map Lit (CHR ''.'' # e)) (uri_tokens rest)"
            using less [of rest] Cons c1 c2 by simp
          show ?thesis
            using True Cons c1 c2 ih
            by (cases "hexval h1"; cases "hexval h2"; cases "uri_tokens rest") auto
        qed
      qed
    qed
  qed
qed

lemma map_option_snoc:
  "map_option (\<lambda>r. r @ t) (map_option ((#) x) A) = map_option ((#) x) (map_option (\<lambda>r. r @ t) A)"
  by (cases A) auto

lemma utf8_octets_append_Lit:
  assumes "t \<noteq> []"
  shows "utf8_octets n lo hi (ts @ map Lit t) = map_option (\<lambda>r. r @ t) (utf8_octets n lo hi ts)"
proof (induction ts arbitrary: n lo hi)
  case Nil
  show ?case
  proof (cases t)
    case Nil
    then show ?thesis using assms by simp
  next
    case (Cons a t')
    then show ?thesis
      by (simp add: utf8_octets_Lit)
  qed
next
  case (Cons tok ts)
  have ih: "\<And>n lo hi. utf8_octets n lo hi (ts @ map Lit t) =
                        map_option (\<lambda>r. r @ t) (utf8_octets n lo hi ts)"
    by (rule Cons.IH)
  show ?case
  proof (cases tok)
    case (Lit c)
    then show ?thesis by (simp add: ih map_option_snoc)
  next
    case (Esc b)
    then show ?thesis by (simp add: ih map_option_snoc)
  qed
qed

lemma decode_append_dot:
  assumes "CHR ''%'' \<notin> set e"
  shows "decodeURIComponent (q @ CHR ''.'' # e) =
         map_option (\<lambda>r. r @ CHR ''.'' # e) (decodeURIComponent q)"
proof (cases "uri_tokens q")
  case None
  then show ?thesis
    by (simp add: decodeURIComponent_def uri_tokens_append_dot [OF assms])
next
  case (Some ts)
  then show ?thesis
    using utf8_octets_append_Lit [of "CHR ''.'' # e" 0 0 0 ts]
    by (simp add: decodeURIComponent_def uri_tokens_append_dot [OF assms])
qed

lemma stripExt_ext:
  assumes "e \<noteq> []" "list_all is_alnum e"
  shows "stripExt (r @ CHR ''.'' # e) = r"
proof -
  have na: "\<not> is_alnum CHR ''.''" by (simp add: is_alnum_def)
  have a: "\<forall>x\<in>set (rev e). is_alnum x" using assms(2) by (simp add: list_all_iff)
  have rv: "rev (r @ CHR ''.'' # e) = rev e @ CHR ''.'' # rev r" by simp
  have t0: "takeWhile is_alnum (rev e) = rev e"
    using a by (simp add: takeWhile_eq_all_conv)
  have d0: "dropWhile is_alnum (rev e) = []"
    using a by (simp add: dropWhile_eq_Nil_conv)
  have tw: "takeWhile is_alnum (rev e @ CHR ''.'' # rev r) = rev e"
    using takeWhile_tail [of is_alnum "CHR ''.''" "rev e" "rev r"] na t0 by simp
  have dw: "dropWhile is_alnum (rev e @ CHR ''.'' # rev r) = CHR ''.'' # rev r"
    using dropWhile_append3 [of is_alnum "CHR ''.''" "rev e" "rev r"] na d0 by simp
  show ?thesis
    unfolding stripExt_def Let_def rv tw dw using assms(1) by simp
qed

lemma alnum_no_percent: "list_all is_alnum e \<Longrightarrow> CHR ''%'' \<notin> set e"
proof
  assume a: "list_all is_alnum e" and "CHR ''%'' \<in> set e"
  then have "is_alnum CHR ''%''" by (simp add: list_all_iff)
  then show False by (simp add: is_alnum_def)
qed

lemma beforeLowerCase_ext:
  assumes "e \<noteq> []" "list_all is_alnum e"
  shows "beforeLowerCase (p @ CHR ''.'' # e) =
         map backslash_to_slash
           (case decodeURIComponent (strip_file_prefix (trimStart p)) of
              Some d \<Rightarrow> d | None \<Rightarrow> strip_file_prefix (trimStart p)) @ CHR ''.'' # e"
proof -
  define q where "q = strip_file_prefix (trimStart p)"
  have se: "map backslash_to_slash e = e"
    using assms(2) by (induction e) (auto simp: backslash_to_slash_def is_alnum_def)
  have dot: "backslash_to_slash CHR ''.'' = CHR ''.''"
    by (simp add: backslash_to_slash_def)
  have x: "strip_file_prefix (trim (p @ CHR ''.'' # e)) = q @ CHR ''.'' # e"
    by (simp add: trim_append_ext [OF assms] strip_file_prefix_append_dot q_def)
  have d: "(case decodeURIComponent (q @ CHR ''.'' # e) of Some d \<Rightarrow> d | None \<Rightarrow> q @ CHR ''.'' # e) =
           (case decodeURIComponent q of Some d \<Rightarrow> d | None \<Rightarrow> q) @ CHR ''.'' # e"
    by (cases "decodeURIComponent q")
       (simp_all add: decode_append_dot [OF alnum_no_percent [OF assms(2)]])
  show ?thesis
    unfolding beforeLowerCase_def Let_def x d q_def [symmetric] by (simp add: se dot)
qed

lemma alnum_lower:
  assumes "is_alnum c"
  shows "is_alnum (toLowerChar c)"
  using assms unfolding is_alnum_def Let_def code_toLowerChar by auto

lemma matchKey_ext_ascii:
  assumes "e \<noteq> []" "list_all is_alnum e"
  shows "matchKey lowerASCII (p @ CHR ''.'' # e) =
         lowerASCII (map backslash_to_slash
           (case decodeURIComponent (strip_file_prefix (trimStart p)) of
              Some d \<Rightarrow> d | None \<Rightarrow> strip_file_prefix (trimStart p)))"
proof -
  define e' where "e' = lowerASCII e"
  have e': "e' \<noteq> []" "list_all is_alnum e'"
    using assms by (simp_all add: e'_def lowerASCII_def list_all_iff alnum_lower)
  have dot: "toLowerChar CHR ''.'' = CHR ''.''"
    by (simp add: toLowerChar_def)
  have n: "norm' lowerASCII (p @ CHR ''.'' # e) =
           lowerASCII (map backslash_to_slash
             (case decodeURIComponent (strip_file_prefix (trimStart p)) of
                Some d \<Rightarrow> d | None \<Rightarrow> strip_file_prefix (trimStart p))) @ CHR ''.'' # e'"
    unfolding norm_alt beforeLowerCase_ext [OF assms] by (simp add: lowerASCII_def e'_def dot)
  show ?thesis
    unfolding matchKey_def n by (rule stripExt_ext [OF e'])
qed

lemma matchKey_extension_variants_ascii:
  assumes "e1 \<noteq> []" "list_all is_alnum e1" "e2 \<noteq> []" "list_all is_alnum e2"
  shows "matchKey lowerASCII (p @ CHR ''.'' # e1) = matchKey lowerASCII (p @ CHR ''.'' # e2)"
  by (simp add: matchKey_ext_ascii [OF assms(1,2)] matchKey_ext_ascii [OF assms(3,4)])

lemma set_trimWith: "set (trimWith ws s) \<subseteq> set s"
proof (induction ws s rule: trimWith.induct)
  case (1 ws s)
  show ?case
  proof (cases "ws_prefix_len ws s = 0 \<or> s = []")
    case True
    then show ?thesis by (simp add: trimWith.simps [of ws s])
  next
    case False
    then have "set (trimWith ws (drop (ws_prefix_len ws s) s)) \<subseteq> set (drop (ws_prefix_len ws s) s)"
      using "1.IH" by blast
    moreover have "set (drop (ws_prefix_len ws s) s) \<subseteq> set s"
      by (rule set_drop_subset)
    ultimately have "set (trimWith ws (drop (ws_prefix_len ws s) s)) \<subseteq> set s"
      by blast
    then show ?thesis
      using False by (simp add: trimWith.simps [of ws s])
  qed
qed

lemma set_trim: "set (trim s) \<subseteq> set s"
proof -
  have "set (trimStart s) \<subseteq> set s"
    unfolding trimStart_def by (rule set_trimWith)
  moreover have "set (trimEnd (trimStart s)) \<subseteq> set (trimStart s)"
    unfolding trimEnd_def using set_trimWith [of "map rev js_whitespace" "rev (trimStart s)"]
    by simp
  ultimately show ?thesis unfolding trim_def by blast
qed

lemma set_strip_file_prefix: "set (strip_file_prefix s) \<subseteq> set s"
  unfolding strip_file_prefix_def using set_drop_subset [of 7 s] by auto

lemma set_stripExt: "set (stripExt p) \<subseteq> set p"
proof -
  have r: "rev p = takeWhile is_alnum (rev p) @ dropWhile is_alnum (rev p)" by simp
  show ?thesis
  proof (cases "dropWhile is_alnum (rev p)")
    case Nil
    show ?thesis unfolding stripExt_def Let_def Nil by simp
  next
    case (Cons d stem)
    have "set stem \<subseteq> set (dropWhile is_alnum (rev p))" using Cons by auto
    also have "\<dots> \<subseteq> set (rev p)" by (metis set_dropWhileD subsetI)
    finally have "set (rev stem) \<subseteq> set p" by simp
    then show ?thesis
      unfolding stripExt_def Let_def Cons by auto
  qed
qed

lemma trim_Nil: "trim [] = []"
  by (simp add: trim_def trimStart_def trimEnd_def trimWith.simps [of _ "[]"])

lemma strip_file_prefix_Nil: "strip_file_prefix [] = []"
  by (simp add: strip_file_prefix_def)

lemma beforeLowerCase_no_percent:
  assumes "CHR ''%'' \<notin> set s"
  shows "beforeLowerCase s = map backslash_to_slash (strip_file_prefix (trim s))"
proof -
  have "CHR ''%'' \<notin> set (strip_file_prefix (trim s))"
    using assms set_trim [of s] set_strip_file_prefix [of "trim s"] by blast
  then show ?thesis
    by (simp add: beforeLowerCase_def Let_def decode_no_percent)
qed

lemma beforeLowerCase_fixed:
  assumes "trim y = y" "\<not> has_file_prefix y" "CHR ''%'' \<notin> set y"
  shows "beforeLowerCase y = map backslash_to_slash y"
  using assms by (simp add: beforeLowerCase_no_percent strip_file_prefix_def)

lemma slash_fixed: "CHR 0x5C \<notin> set s \<Longrightarrow> map backslash_to_slash s = s"
  by (induction s) (auto simp: backslash_to_slash_def)

lemma slash_no_backslash: "CHR 0x5C \<notin> set (map backslash_to_slash s)"
  by (induction s) (auto simp: backslash_to_slash_def)

lemma norm_no_backslash:
  assumes "lowerCaseLaws lc"
  shows "CHR 0x5C \<notin> set (norm' lc x)"
proof (cases "x = []")
  case True
  then show ?thesis by (simp add: norm_alt)
next
  case False
  have c: "\<And>s. lc (map backslash_to_slash s) = map backslash_to_slash (lc s)"
    using assms unfolding lowerCaseLaws_def by blast
  obtain z where z: "beforeLowerCase x = map backslash_to_slash z"
    unfolding beforeLowerCase_def Let_def by blast
  have "norm' lc x = map backslash_to_slash (lc z)"
    using False by (simp add: norm_alt z c)
  then show ?thesis by (simp only: slash_no_backslash not_False_eq_True)
qed

lemma norm_lower:
  assumes "lowerCaseLaws lc"
  shows "lc (norm' lc x) = norm' lc x"
proof -
  have "lc [] = []" "\<And>s. lc (lc s) = lc s"
    using assms unfolding lowerCaseLaws_def by blast+
  then show ?thesis by (simp add: norm_alt)
qed

lemma norm_fixed:
  assumes "lowerCaseLaws lc"
    and "trim (norm' lc x) = norm' lc x" "\<not> has_file_prefix (norm' lc x)"
    and "CHR ''%'' \<notin> set (norm' lc x)"
  shows "norm' lc (norm' lc x) = norm' lc x"
proof -
  define y where "y = norm' lc x"
  have b: "beforeLowerCase y = y"
    using beforeLowerCase_fixed [of y] slash_fixed [OF norm_no_backslash [OF assms(1), of x]]
      assms(2-4) unfolding y_def by simp
  have "norm' lc y = y"
    using norm_lower [OF assms(1), of x] unfolding y_def [symmetric]
    by (simp add: norm_alt b)
  then show ?thesis unfolding y_def .
qed

lemma matchKey_fixed:
  assumes "lowerCaseLaws lc"
    and "trim (matchKey lc x) = matchKey lc x" "\<not> has_file_prefix (matchKey lc x)"
    and "CHR ''%'' \<notin> set (matchKey lc x)"
    and "stripExt (matchKey lc x) = matchKey lc x" "lc (matchKey lc x) = matchKey lc x"
  shows "matchKey lc (matchKey lc x) = matchKey lc x"
proof -
  define k where "k = matchKey lc x"
  have "CHR 0x5C \<notin> set k"
    using norm_no_backslash [OF assms(1), of x] set_stripExt [of "norm' lc x"]
    unfolding k_def matchKey_def by blast
  then have b: "beforeLowerCase k = k"
    using beforeLowerCase_fixed [of k] slash_fixed [of k] assms(2-4)
    unfolding k_def [symmetric] by simp
  have "norm' lc k = k"
    using assms(6) unfolding k_def [symmetric] by (simp add: norm_alt b)
  then have "matchKey lc k = k"
    using assms(5) unfolding k_def [symmetric] by (simp add: matchKey_def)
  then show ?thesis unfolding k_def .
qed

lemma norm_no_percent:
  assumes "lowerCaseLaws lc" "CHR ''%'' \<notin> set x"
  shows "norm' lc x = map backslash_to_slash (strip_file_prefix (trim (lc x)))"
proof -
  have l: "lc [] = []"
    "\<And>s. lc (map backslash_to_slash s) = map backslash_to_slash (lc s)"
    "\<And>s. trim (lc s) = lc (trim s)"
    "\<And>s. strip_file_prefix (lc s) = lc (strip_file_prefix s)"
    using assms(1) unfolding lowerCaseLaws_def by blast+
  show ?thesis
  proof (cases "x = []")
    case True
    then show ?thesis
      by (simp add: norm_alt l(1) trim_Nil strip_file_prefix_Nil)
  next
    case False
    then show ?thesis
      by (simp add: norm_alt beforeLowerCase_no_percent [OF assms(2)] l)
  qed
qed

lemma norm_case_variants:
  assumes "lowerCaseLaws lc" "lc x = lc y" "CHR ''%'' \<notin> set x" "CHR ''%'' \<notin> set y"
  shows "norm' lc x = norm' lc y"
  by (simp add: norm_no_percent [OF assms(1,3)] norm_no_percent [OF assms(1,4)] assms(2))

lemma uri_tokens_Nil: "uri_tokens s = Some [] \<Longrightarrow> s = []"
proof (cases s)
  case Nil
  then show ?thesis by simp
next
  case (Cons c cs)
  assume a: "uri_tokens s = Some []"
  show ?thesis
  proof (cases "c = CHR ''%''")
    case False
    then show ?thesis using a Cons by (cases "uri_tokens cs") auto
  next
    case True
    then show ?thesis
      using a Cons
      by (auto split: list.splits option.splits)
  qed
qed

lemma utf8_octets_Nil: "utf8_octets n lo hi ts = Some [] \<Longrightarrow> ts = []"
proof (cases ts)
  case Nil
  then show ?thesis by simp
next
  case (Cons t ts')
  assume a: "utf8_octets n lo hi ts = Some []"
  show ?thesis
  proof (cases t)
    case (Lit c)
    then show ?thesis using a Cons by (auto split: if_splits)
  next
    case (Esc b)
    then show ?thesis using a Cons by (auto split: if_splits)
  qed
qed

lemma decode_Nil: "decodeURIComponent y = Some [] \<Longrightarrow> y = []"
  unfolding decodeURIComponent_def
  using uri_tokens_Nil utf8_octets_Nil by (auto split: option.splits)

lemma norm_encoded:
  assumes "decodeURIComponent y = Some z" "CHR ''%'' \<notin> set z"
    "trim y = y" "trim z = z" "\<not> has_file_prefix y" "\<not> has_file_prefix z"
  shows "norm' lc y = norm' lc z"
proof -
  have e: "(y = []) = (z = [])"
    using assms(1) decode_Nil [of y] by (auto simp: decodeURIComponent_def)
  have "beforeLowerCase y = map backslash_to_slash z"
    using assms by (simp add: beforeLowerCase_def Let_def strip_file_prefix_def)
  moreover have "beforeLowerCase z = map backslash_to_slash z"
    using assms by (simp add: beforeLowerCase_fixed)
  ultimately show ?thesis
    using e by (simp add: norm_alt)
qed

lemma lowerCaseLaws_lowerASCII: "lowerCaseLaws lowerASCII"
proof -
  have p: "\<And>s. strip_file_prefix (lowerASCII s) = lowerASCII (strip_file_prefix s)"
  proof -
    fix s
    have h: "has_file_prefix (lowerASCII s) = has_file_prefix s"
      by (rule has_file_prefix_lower) (simp add: lowerASCII_idem)
    show "strip_file_prefix (lowerASCII s) = lowerASCII (strip_file_prefix s)"
      unfolding strip_file_prefix_def h by (simp add: lowerASCII_def drop_map)
  qed
  show ?thesis
    unfolding lowerCaseLaws_def
    using p by (simp add: lowerASCII_idem lowerASCII_slash trim_lowerASCII) (simp add: lowerASCII_def)
qed

lemma matchKey_ext:
  assumes "norm' lc x = k @ CHR ''.'' # f" "f \<noteq> []" "list_all is_alnum f"
  shows "matchKey lc x = k"
  unfolding matchKey_def assms(1) by (rule stripExt_ext [OF assms(2,3)])

lemma matchKey_extension_variants:
  assumes "e1 \<noteq> []" "list_all is_alnum e1" "e2 \<noteq> []" "list_all is_alnum e2"
    and "lc (beforeLowerCase (p @ CHR ''.'' # e1)) = lowerASCII (beforeLowerCase (p @ CHR ''.'' # e1))"
    and "lc (beforeLowerCase (p @ CHR ''.'' # e2)) = lowerASCII (beforeLowerCase (p @ CHR ''.'' # e2))"
  shows "matchKey lc (p @ CHR ''.'' # e1) = matchKey lc (p @ CHR ''.'' # e2)"
proof -
  have "norm' lc (p @ CHR ''.'' # e1) = norm' lowerASCII (p @ CHR ''.'' # e1)"
    "norm' lc (p @ CHR ''.'' # e2) = norm' lowerASCII (p @ CHR ''.'' # e2)"
    using assms(5,6) by (simp_all add: norm_alt)
  then show ?thesis
    using matchKey_extension_variants_ascii [OF assms(1-4), of p]
    by (simp add: matchKey_def)
qed

section \<open>Identity normalization: claim\<close>

text \<open>
  Claim C9, as amended. \<^verbatim>\<open>norm\<close> decodes once per pass, so a second pass changes nothing
  exactly under side conditions: when \<^verbatim>\<open>norm(x)\<close> is already trimmed, has no \<^verbatim>\<open>file://\<close>
  prefix and no percent sign, then \<^verbatim>\<open>norm(norm(x)) = norm(x)\<close>. The same holds for the key
  \<^verbatim>\<open>matchKey\<close> that the program stores and normalizes again, when in addition the key has no
  final dot-suffix of letters and digits left (the extension is stripped once per pass) and
  \<^verbatim>\<open>toLowerCase\<close> leaves it unchanged. Variants have equal keys as follows.
  \<^item> Case: two strings without percent sign that \<^verbatim>\<open>toLowerCase\<close> maps to the same string
    have the same \<^verbatim>\<open>norm\<close>; two strings that differ only in the case of ASCII letters have
    the same \<^verbatim>\<open>norm\<close>, percent signs or not.
  \<^item> Separator: two strings that differ only in backslash against slash have the same
    \<^verbatim>\<open>norm\<close> when both or neither start, after trimming, with \<^verbatim>\<open>file://\<close>.
  \<^item> Encoding: a percent-encoded string and the string it decodes to have the same \<^verbatim>\<open>norm\<close>
    when both are trimmed and without \<^verbatim>\<open>file://\<close> prefix and the decoded one has no
    percent sign.
  \<^item> Extension: for two paths that differ only in a final extension of letters and digits,
    the strings that \<^verbatim>\<open>norm\<close> lower-cases differ only in that extension; whenever two
    normalized strings differ only in such an extension the keys \<^verbatim>\<open>matchKey\<close> are equal,
    and so are the keys of the two paths when \<^verbatim>\<open>toLowerCase\<close> acts on them as on ASCII
    strings.

  The statements on idempotence and on case assume of \<^verbatim>\<open>toLowerCase\<close> the properties that
  \<open>lowerCaseLaws\<close> lists: it maps the empty string to itself, is idempotent, commutes with
  the replacement of backslashes, with trimming and with the removal of the \<^verbatim>\<open>file://\<close>
  prefix, and absorbs the lower-casing of ASCII letters. The statements on separator,
  encoding and on the extension of normalized strings hold for every function in its
  place. \<^verbatim>\<open>normKey\<close> of dj-lib.js is the same function as \<^verbatim>\<open>norm\<close>.
\<close>

theorem normalization_idempotent_and_variants:
  "(lowerCaseLaws lc \<and> trim (norm' lc x) = norm' lc x \<and> \<not> has_file_prefix (norm' lc x) \<and>
    CHR ''%'' \<notin> set (norm' lc x) \<longrightarrow> norm' lc (norm' lc x) = norm' lc x) \<and>
   (lowerCaseLaws lc \<and> trim (matchKey lc x) = matchKey lc x \<and>
    \<not> has_file_prefix (matchKey lc x) \<and> CHR ''%'' \<notin> set (matchKey lc x) \<and>
    stripExt (matchKey lc x) = matchKey lc x \<and> lc (matchKey lc x) = matchKey lc x
      \<longrightarrow> matchKey lc (matchKey lc x) = matchKey lc x) \<and>
   (lowerCaseLaws lc \<and> lc a = lc b \<and> CHR ''%'' \<notin> set a \<and> CHR ''%'' \<notin> set b
      \<longrightarrow> norm' lc a = norm' lc b) \<and>
   (lowerCaseLaws lc \<and> lowerASCII a = lowerASCII b \<longrightarrow> norm' lc a = norm' lc b) \<and>
   (map backslash_to_slash c = map backslash_to_slash d \<and>
    has_file_prefix (trim c) = has_file_prefix (trim d) \<longrightarrow> norm' lc c = norm' lc d) \<and>
   (decodeURIComponent y = Some z \<and> CHR ''%'' \<notin> set z \<and> trim y = y \<and> trim z = z \<and>
    \<not> has_file_prefix y \<and> \<not> has_file_prefix z \<longrightarrow> norm' lc y = norm' lc z) \<and>
   (e1 \<noteq> [] \<and> list_all is_alnum e1 \<and> e2 \<noteq> [] \<and> list_all is_alnum e2 \<longrightarrow>
      (\<exists>s. beforeLowerCase (p @ CHR ''.'' # e1) = s @ CHR ''.'' # e1 \<and>
           beforeLowerCase (p @ CHR ''.'' # e2) = s @ CHR ''.'' # e2)) \<and>
   (norm' lc u = k @ CHR ''.'' # f1 \<and> norm' lc v = k @ CHR ''.'' # f2 \<and>
    f1 \<noteq> [] \<and> list_all is_alnum f1 \<and> f2 \<noteq> [] \<and> list_all is_alnum f2
      \<longrightarrow> matchKey lc u = k \<and> matchKey lc v = k) \<and>
   (e1 \<noteq> [] \<and> list_all is_alnum e1 \<and> e2 \<noteq> [] \<and> list_all is_alnum e2 \<and>
    lc (beforeLowerCase (p @ CHR ''.'' # e1)) = lowerASCII (beforeLowerCase (p @ CHR ''.'' # e1)) \<and>
    lc (beforeLowerCase (p @ CHR ''.'' # e2)) = lowerASCII (beforeLowerCase (p @ CHR ''.'' # e2))
      \<longrightarrow> matchKey lc (p @ CHR ''.'' # e1) = matchKey lc (p @ CHR ''.'' # e2)) \<and>
   normKey lc x = norm' lc x"
proof -
  have c1: "lowerCaseLaws lc \<and> trim (norm' lc x) = norm' lc x \<and> \<not> has_file_prefix (norm' lc x) \<and>
    CHR ''%'' \<notin> set (norm' lc x) \<longrightarrow> norm' lc (norm' lc x) = norm' lc x"
    using norm_fixed [of lc x] by blast
  have c2: "lowerCaseLaws lc \<and> trim (matchKey lc x) = matchKey lc x \<and>
    \<not> has_file_prefix (matchKey lc x) \<and> CHR ''%'' \<notin> set (matchKey lc x) \<and>
    stripExt (matchKey lc x) = matchKey lc x \<and> lc (matchKey lc x) = matchKey lc x
      \<longrightarrow> matchKey lc (matchKey lc x) = matchKey lc x"
    using matchKey_fixed [of lc x] by blast
  have c3: "lowerCaseLaws lc \<and> lc a = lc b \<and> CHR ''%'' \<notin> set a \<and> CHR ''%'' \<notin> set b
      \<longrightarrow> norm' lc a = norm' lc b"
    using norm_case_variants [of lc a b] by blast
  have c4: "lowerCaseLaws lc \<and> lowerASCII a = lowerASCII b \<longrightarrow> norm' lc a = norm' lc b"
    using norm_ascii_case_variants [of lc a b] by blast
  have c5: "map backslash_to_slash c = map backslash_to_slash d \<and>
    has_file_prefix (trim c) = has_file_prefix (trim d) \<longrightarrow> norm' lc c = norm' lc d"
    using norm_separator_variants [of c d lc] by blast
  have c6: "decodeURIComponent y = Some z \<and> CHR ''%'' \<notin> set z \<and> trim y = y \<and> trim z = z \<and>
    \<not> has_file_prefix y \<and> \<not> has_file_prefix z \<longrightarrow> norm' lc y = norm' lc z"
    using norm_encoded [of y z lc] by blast
  have c7: "e1 \<noteq> [] \<and> list_all is_alnum e1 \<and> e2 \<noteq> [] \<and> list_all is_alnum e2 \<longrightarrow>
      (\<exists>s. beforeLowerCase (p @ CHR ''.'' # e1) = s @ CHR ''.'' # e1 \<and>
           beforeLowerCase (p @ CHR ''.'' # e2) = s @ CHR ''.'' # e2)"
    using beforeLowerCase_ext [of e1 p] beforeLowerCase_ext [of e2 p] by blast
  have c8: "norm' lc u = k @ CHR ''.'' # f1 \<and> norm' lc v = k @ CHR ''.'' # f2 \<and>
    f1 \<noteq> [] \<and> list_all is_alnum f1 \<and> f2 \<noteq> [] \<and> list_all is_alnum f2
      \<longrightarrow> matchKey lc u = k \<and> matchKey lc v = k"
    using matchKey_ext [of lc u k f1] matchKey_ext [of lc v k f2] by blast
  have c9: "e1 \<noteq> [] \<and> list_all is_alnum e1 \<and> e2 \<noteq> [] \<and> list_all is_alnum e2 \<and>
    lc (beforeLowerCase (p @ CHR ''.'' # e1)) = lowerASCII (beforeLowerCase (p @ CHR ''.'' # e1)) \<and>
    lc (beforeLowerCase (p @ CHR ''.'' # e2)) = lowerASCII (beforeLowerCase (p @ CHR ''.'' # e2))
      \<longrightarrow> matchKey lc (p @ CHR ''.'' # e1) = matchKey lc (p @ CHR ''.'' # e2)"
    using matchKey_extension_variants [of e1 e2 lc p] by blast
  have c10: "normKey lc x = norm' lc x" by (rule normKey_norm)
  from c1 c2 c3 c4 c5 c6 c7 c8 c9 c10 show ?thesis by (intro conjI)
qed

theorem normalization_idempotent_and_variants_witness:
  "norm' lowerASCII (norm' lowerASCII ''C:/Music/A b.MP3'') = norm' lowerASCII ''C:/Music/A b.MP3'' \<and>
   matchKey lowerASCII (matchKey lowerASCII ''C:/Music/A b.MP3'') =
     matchKey lowerASCII ''C:/Music/A b.MP3'' \<and>
   norm' lowerASCII ''C:/Music/A.MP3'' = norm' lowerASCII ''c:/music/a.mp3'' \<and>
   norm' lowerASCII ''C:/Music/%41.MP3'' = norm' lowerASCII ''c:/music/%41.mp3'' \<and>
   norm' lowerASCII (''c:'' @ [CHR 0x5C] @ ''music'' @ [CHR 0x5C] @ ''a.mp3'') =
     norm' lowerASCII ''c:/music/a.mp3'' \<and>
   norm' lowerASCII ''c:/music/a%20b.mp3'' = norm' lowerASCII ''c:/music/a b.mp3'' \<and>
   matchKey lowerASCII ''c:/music/a.mp3'' = ''c:/music/a'' \<and>
   matchKey lowerASCII ''c:/music/a.wav'' = ''c:/music/a'' \<and>
   matchKey lowerASCII (''C:/Music/A'' @ CHR ''.'' # ''MP3'') =
     matchKey lowerASCII (''C:/Music/A'' @ CHR ''.'' # ''wav'')"
proof -
  note laws = lowerCaseLaws_lowerASCII
  have h1: "trim (norm' lowerASCII ''C:/Music/A b.MP3'') = norm' lowerASCII ''C:/Music/A b.MP3'' \<and>
            \<not> has_file_prefix (norm' lowerASCII ''C:/Music/A b.MP3'') \<and>
            CHR ''%'' \<notin> set (norm' lowerASCII ''C:/Music/A b.MP3'')"
    by code_simp
  have h2: "trim (matchKey lowerASCII ''C:/Music/A b.MP3'') = matchKey lowerASCII ''C:/Music/A b.MP3'' \<and>
            \<not> has_file_prefix (matchKey lowerASCII ''C:/Music/A b.MP3'') \<and>
            CHR ''%'' \<notin> set (matchKey lowerASCII ''C:/Music/A b.MP3'') \<and>
            stripExt (matchKey lowerASCII ''C:/Music/A b.MP3'') = matchKey lowerASCII ''C:/Music/A b.MP3'' \<and>
            lowerASCII (matchKey lowerASCII ''C:/Music/A b.MP3'') = matchKey lowerASCII ''C:/Music/A b.MP3''"
    by code_simp
  have h3: "lowerASCII ''C:/Music/A.MP3'' = lowerASCII ''c:/music/a.mp3'' \<and>
            CHR ''%'' \<notin> set ''C:/Music/A.MP3'' \<and> CHR ''%'' \<notin> set ''c:/music/a.mp3''"
    by code_simp
  have h4: "lowerASCII ''C:/Music/%41.MP3'' = lowerASCII ''c:/music/%41.mp3''"
    by code_simp
  have h5: "map backslash_to_slash (''c:'' @ [CHR 0x5C] @ ''music'' @ [CHR 0x5C] @ ''a.mp3'') =
            map backslash_to_slash ''c:/music/a.mp3'' \<and>
            has_file_prefix (trim (''c:'' @ [CHR 0x5C] @ ''music'' @ [CHR 0x5C] @ ''a.mp3'')) =
            has_file_prefix (trim ''c:/music/a.mp3'')"
    by code_simp
  have h6: "decodeURIComponent ''c:/music/a%20b.mp3'' = Some ''c:/music/a b.mp3'' \<and>
            CHR ''%'' \<notin> set ''c:/music/a b.mp3'' \<and>
            trim ''c:/music/a%20b.mp3'' = ''c:/music/a%20b.mp3'' \<and>
            trim ''c:/music/a b.mp3'' = ''c:/music/a b.mp3'' \<and>
            \<not> has_file_prefix ''c:/music/a%20b.mp3'' \<and> \<not> has_file_prefix ''c:/music/a b.mp3''"
    by code_simp
  have h7: "''MP3'' \<noteq> [] \<and> list_all is_alnum ''MP3'' \<and> ''wav'' \<noteq> [] \<and> list_all is_alnum ''wav''"
    by code_simp
  have h8: "norm' lowerASCII ''c:/music/a.mp3'' = ''c:/music/a'' @ CHR ''.'' # ''mp3'' \<and>
            norm' lowerASCII ''c:/music/a.wav'' = ''c:/music/a'' @ CHR ''.'' # ''wav'' \<and>
            ''mp3'' \<noteq> [] \<and> list_all is_alnum ''mp3'' \<and> ''wav'' \<noteq> [] \<and> list_all is_alnum ''wav''"
    by code_simp
  note t1 = normalization_idempotent_and_variants [of lowerASCII "''C:/Music/A b.MP3''"
        "''C:/Music/A.MP3''" "''c:/music/a.mp3''"
        "''c:'' @ [CHR 0x5C] @ ''music'' @ [CHR 0x5C] @ ''a.mp3''" "''c:/music/a.mp3''"
        "''c:/music/a%20b.mp3''" "''c:/music/a b.mp3''" "''MP3''" "''wav''" "''C:/Music/A''"
        "''c:/music/a.mp3''" "''c:/music/a''" "''mp3''" "''c:/music/a.wav''" "''wav''"]
  note t2 = normalization_idempotent_and_variants [of lowerASCII "''C:/Music/A b.MP3''"
        "''C:/Music/%41.MP3''" "''c:/music/%41.mp3''"
        "''c:'' @ [CHR 0x5C] @ ''music'' @ [CHR 0x5C] @ ''a.mp3''" "''c:/music/a.mp3''"
        "''c:/music/a%20b.mp3''" "''c:/music/a b.mp3''" "''MP3''" "''wav''" "''C:/Music/A''"
        "''c:/music/a.mp3''" "''c:/music/a''" "''mp3''" "''c:/music/a.wav''" "''wav''"]
  note k1 = t1 [THEN conjunct1]
  note k2 = t1 [THEN conjunct2, THEN conjunct1]
  note k3 = t1 [THEN conjunct2, THEN conjunct2, THEN conjunct1]
  note k4 = t2 [THEN conjunct2, THEN conjunct2, THEN conjunct2, THEN conjunct1]
  note k5 = t1 [THEN conjunct2, THEN conjunct2, THEN conjunct2, THEN conjunct2, THEN conjunct1]
  note k6 = t1 [THEN conjunct2, THEN conjunct2, THEN conjunct2, THEN conjunct2, THEN conjunct2,
                THEN conjunct1]
  note k8 = t1 [THEN conjunct2, THEN conjunct2, THEN conjunct2, THEN conjunct2, THEN conjunct2,
                THEN conjunct2, THEN conjunct2, THEN conjunct1]
  note k9 = t1 [THEN conjunct2, THEN conjunct2, THEN conjunct2, THEN conjunct2, THEN conjunct2,
                THEN conjunct2, THEN conjunct2, THEN conjunct2, THEN conjunct1]
  have a7: "lowerASCII (beforeLowerCase (''C:/Music/A'' @ CHR ''.'' # ''MP3'')) =
            lowerASCII (beforeLowerCase (''C:/Music/A'' @ CHR ''.'' # ''MP3'')) \<and>
            lowerASCII (beforeLowerCase (''C:/Music/A'' @ CHR ''.'' # ''wav'')) =
            lowerASCII (beforeLowerCase (''C:/Music/A'' @ CHR ''.'' # ''wav''))"
    by simp
  have c1: "norm' lowerASCII (norm' lowerASCII ''C:/Music/A b.MP3'') = norm' lowerASCII ''C:/Music/A b.MP3''"
    by (rule k1 [rule_format]) (intro conjI laws h1 [THEN conjunct1] h1 [THEN conjunct2, THEN conjunct1]
          h1 [THEN conjunct2, THEN conjunct2])
  have c2: "matchKey lowerASCII (matchKey lowerASCII ''C:/Music/A b.MP3'') =
     matchKey lowerASCII ''C:/Music/A b.MP3''"
    by (rule k2 [rule_format]) (intro conjI laws h2 [THEN conjunct1] h2 [THEN conjunct2, THEN conjunct1]
          h2 [THEN conjunct2, THEN conjunct2, THEN conjunct1]
          h2 [THEN conjunct2, THEN conjunct2, THEN conjunct2, THEN conjunct1]
          h2 [THEN conjunct2, THEN conjunct2, THEN conjunct2, THEN conjunct2])
  have c3: "norm' lowerASCII ''C:/Music/A.MP3'' = norm' lowerASCII ''c:/music/a.mp3''"
    by (rule k3 [rule_format]) (intro conjI laws h3 [THEN conjunct1] h3 [THEN conjunct2, THEN conjunct1]
          h3 [THEN conjunct2, THEN conjunct2])
  have c4: "norm' lowerASCII ''C:/Music/%41.MP3'' = norm' lowerASCII ''c:/music/%41.mp3''"
    by (rule k4 [rule_format]) (intro conjI laws h4)
  have c5: "norm' lowerASCII (''c:'' @ [CHR 0x5C] @ ''music'' @ [CHR 0x5C] @ ''a.mp3'') =
     norm' lowerASCII ''c:/music/a.mp3''"
    by (rule k5 [rule_format]) (rule h5)
  have c6: "norm' lowerASCII ''c:/music/a%20b.mp3'' = norm' lowerASCII ''c:/music/a b.mp3''"
    by (rule k6 [rule_format]) (rule h6)
  have c7: "matchKey lowerASCII ''c:/music/a.mp3'' = ''c:/music/a'' \<and>
            matchKey lowerASCII ''c:/music/a.wav'' = ''c:/music/a''"
    by (rule k8 [rule_format]) (rule h8)
  have c8: "matchKey lowerASCII (''C:/Music/A'' @ CHR ''.'' # ''MP3'') =
     matchKey lowerASCII (''C:/Music/A'' @ CHR ''.'' # ''wav'')"
    by (rule k9 [rule_format]) (intro conjI h7 [THEN conjunct1] h7 [THEN conjunct2, THEN conjunct1]
          h7 [THEN conjunct2, THEN conjunct2, THEN conjunct1]
          h7 [THEN conjunct2, THEN conjunct2, THEN conjunct2]
          a7 [THEN conjunct1] a7 [THEN conjunct2])
  from c1 c2 c3 c4 c5 c6 c7 c8 show ?thesis by (intro conjI) (erule conjunct1 conjunct2 | assumption)+
qed

text \<open>
  Claim C9 as stated fails. A percent sign that is itself percent-encoded is decoded
  once per pass, so a second normalization changes the key; an encoded leading space
  survives the trimming that removes a plain one; the extension-stripped key of a name
  with two dot-suffixes loses one per pass; and a path with an extension and the same
  path without it have different keys when the name has a dot-suffix of its own.
\<close>

theorem normalization_not_idempotent_counterexample:
  "norm' lowerASCII (norm' lowerASCII ''%2541'') \<noteq> norm' lowerASCII ''%2541'' \<and>
   norm' lowerASCII ''%20a'' \<noteq> norm' lowerASCII '' a'' \<and>
   matchKey lowerASCII ''a.b.c'' = ''a.b'' \<and>
   matchKey lowerASCII (matchKey lowerASCII ''a.b.c'') = ''a'' \<and>
   matchKey lowerASCII ''a.b.mp3'' \<noteq> matchKey lowerASCII ''a.b''"
  by code_simp

section \<open>Properties of the sequence assembler\<close>

lemma find_rev_mem: "find P (rev ws) = Some t \<Longrightarrow> t \<in> set ws \<and> P t"
  by (metis find_Some_iff nth_mem set_rev)

lemma resolveByAnyId_Some:
  assumes "resolveByAnyId lc ws i = Some tr"
  shows "tr \<in> set ws \<and> trackKey lc tr = matchKey lc i"
proof (cases "find (\<lambda>t. getId t = Some i) (rev ws)")
  case None
  then have "find (\<lambda>t. idKey lc (getId t) = matchKey lc i) (rev ws) = Some tr"
    using assms by (simp add: resolveByAnyId_def)
  then show ?thesis
    using find_rev_mem [of "\<lambda>t. idKey lc (getId t) = matchKey lc i" ws tr]
    by (simp add: trackKey_def)
next
  case (Some t)
  then have "t = tr" using assms by (simp add: resolveByAnyId_def)
  then show ?thesis
    using find_rev_mem [of "\<lambda>t. getId t = Some i" ws t] Some by (simp add: trackKey_def)
qed

lemma set_markUsed: "set (markUsed lc used i) = insert (idKey lc i) (set used)"
  by (auto simp: markUsed_def)

lemma collectChosen_props:
  "collectChosen lc ws tgt used ids = (chosen, used') \<Longrightarrow>
     distinct (map (trackKey lc) chosen) \<and>
     set (map (trackKey lc) chosen) \<inter> set used = {} \<and>
     set used' = set used \<union> set (map (trackKey lc) chosen) \<and>
     (distinct used \<longrightarrow> distinct used') \<and>
     set chosen \<subseteq> set ws \<and>
     (\<forall>t\<in>set chosen. \<exists>i\<in>set ids. resolveByAnyId lc ws i = Some t \<and> matchKey lc i \<notin> set used) \<and>
     (\<forall>t\<in>set chosen. \<forall>orch. tgt = Some orch \<longrightarrow> t_artist t = orch)"
proof (induction ids arbitrary: used chosen used')
  case Nil
  then show ?case by simp
next
  case (Cons i ids)
  show ?case
  proof (cases "isUsed lc used (Some i)")
    case True
    then have "collectChosen lc ws tgt used ids = (chosen, used')"
      using Cons.prems by simp
    from Cons.IH [OF this] show ?thesis by auto
  next
    case notUsed: False
    show ?thesis
    proof (cases "resolveByAnyId lc ws i")
      case None
      then have "collectChosen lc ws tgt used ids = (chosen, used')"
        using Cons.prems notUsed by simp
      from Cons.IH [OF this] show ?thesis by auto
    next
      case (Some tr)
      note r = resolveByAnyId_Some [OF Some]
      show ?thesis
      proof (cases "case tgt of None \<Rightarrow> True | Some orch \<Rightarrow> t_artist tr = orch")
        case False
        then have "collectChosen lc ws tgt used ids = (chosen, used')"
          using Cons.prems notUsed Some by simp
        from Cons.IH [OF this] show ?thesis by auto
      next
        case True
        obtain rest u where rec: "collectChosen lc ws tgt (markUsed lc used (getId tr)) ids = (rest, u)"
          by (cases "collectChosen lc ws tgt (markUsed lc used (getId tr)) ids")
        then have c: "chosen = tr # rest" "used' = u"
          using Cons.prems notUsed Some True by simp_all
        note ih = Cons.IH [OF rec]
        have k: "trackKey lc tr \<notin> set used"
          using notUsed r by (simp add: isUsed_def)
        have m: "set (markUsed lc used (getId tr)) = insert (trackKey lc tr) (set used)"
          by (simp add: set_markUsed trackKey_def)
        have "distinct (map (trackKey lc) chosen)"
          using ih m c by auto
        moreover have "set (map (trackKey lc) chosen) \<inter> set used = {}"
          using ih m c k by auto
        moreover have "set used' = set used \<union> set (map (trackKey lc) chosen)"
          using ih m c by auto
        moreover have "distinct used \<longrightarrow> distinct used'"
          using ih c by (simp add: markUsed_def)
        moreover have "set chosen \<subseteq> set ws"
          using ih c r by auto
        moreover have "\<forall>t\<in>set chosen. \<exists>i\<in>set (i # ids).
                         resolveByAnyId lc ws i = Some t \<and> matchKey lc i \<notin> set used"
        proof
          fix t assume "t \<in> set chosen"
          then consider "t = tr" | "t \<in> set rest" using c by auto
          then show "\<exists>i\<in>set (i # ids). resolveByAnyId lc ws i = Some t \<and> matchKey lc i \<notin> set used"
          proof cases
            case 1
            then show ?thesis using Some notUsed by (auto simp: isUsed_def)
          next
            case 2
            then obtain j where "j \<in> set ids" "resolveByAnyId lc ws j = Some t"
              "matchKey lc j \<notin> set (markUsed lc used (getId tr))"
              using ih by blast
            then show ?thesis using m by auto
          qed
        qed
        moreover have "\<forall>t\<in>set chosen. \<forall>orch. tgt = Some orch \<longrightarrow> t_artist t = orch"
          using ih c True by auto
        ultimately show ?thesis by blast
      qed
    qed
  qed
qed

lemma real_padToSize:
  "filter (\<lambda>t. \<not> t_placeholder t) (padToSize sz chosen) = filter (\<lambda>t. \<not> t_placeholder t) chosen"
  by (simp add: padToSize_def placeholderTrack_def)

lemma length_padToSize: "sz \<le> length (padToSize sz chosen)"
  by (simp add: padToSize_def)

lemma chosen_keys:
  assumes "collectChosen lc ws tgt used ids = (chosen, used')"
  shows "distinct (map (trackKey lc) (filter (\<lambda>t. \<not> t_placeholder t) (padToSize sz chosen)))"
    and "set (map (trackKey lc) (filter (\<lambda>t. \<not> t_placeholder t) (padToSize sz chosen))) \<inter> set used = {}"
    and "set (map (trackKey lc) (filter (\<lambda>t. \<not> t_placeholder t) (padToSize sz chosen))) \<subseteq> set used'"
    and "set used \<subseteq> set used'"
    and "distinct used \<longrightarrow> distinct used'"
proof -
  note p = collectChosen_props [OF assms]
  show "distinct (map (trackKey lc) (filter (\<lambda>t. \<not> t_placeholder t) (padToSize sz chosen)))"
    using p by (simp add: real_padToSize distinct_map_filter)
  show "set (map (trackKey lc) (filter (\<lambda>t. \<not> t_placeholder t) (padToSize sz chosen))) \<inter> set used = {}"
    using p unfolding real_padToSize by auto
  show "set (map (trackKey lc) (filter (\<lambda>t. \<not> t_placeholder t) (padToSize sz chosen))) \<subseteq> set used'"
    using p unfolding real_padToSize by auto
  show "set used \<subseteq> set used'"
    using p by auto
  show "distinct used \<longrightarrow> distinct used'"
    using p by auto
qed

lemma slotEffect_push:
  assumes "collectChosen lc ws tgt (usedIds st) ids = (chosen, used')"
    and "0 < secs" "secs \<le> remainingSeconds st + 30"
  shows "slotEffect lc sz st
           (pushTanda (st\<lparr>usedIds := used', exchanges := evs\<rparr>)
              \<lparr>td_style = a, td_role = b, td_tracks = padToSize sz chosen, td_seconds = secs\<rparr>)"
  using chosen_keys [OF assms(1)] assms(2,3) length_padToSize [of sz chosen]
  by (simp add: slotEffect_def pushTanda_def Let_def)

lemma styleOnlyGroup_effect:
  "slotEffect (toLowerCase E) (s_size sl) st (styleOnlyGroup E sl styleOnly st)"
proof -
  obtain ids evs where p: "planOneTandaWithRetry (normalizeOrchestra E) (tandaOracle E)
              (length (attempts (exchanges st))) (s_size sl)
              (take 60 styleOnly) (Some styleOnly) None (alternativeOrchestras E None) 3 = (ids, evs)"
    by (cases "planOneTandaWithRetry (normalizeOrchestra E) (tandaOracle E)
              (length (attempts (exchanges st))) (s_size sl)
              (take 60 styleOnly) (Some styleOnly) None (alternativeOrchestras E None) 3")
  obtain chosen used' where
    c: "collectChosen (toLowerCase E) (workingSet E) None (usedIds st) ids = (chosen, used')"
    by (cases "collectChosen (toLowerCase E) (workingSet E) None (usedIds st) ids")
  define tracks where "tracks = padToSize (s_size sl) chosen"
  define secs where "secs = (if sum_list (map t_seconds tracks) = 0
                             then 180 * of_nat (length tracks) else sum_list (map t_seconds tracks))"
  define ok where "ok = (tracks \<noteq> [] \<and> secs > 0 \<and> secs \<le> remainingSeconds st + 30 \<and>
                         realTrackCount tracks \<ge> 1)"
  have r: "styleOnlyGroup E sl styleOnly st =
     (if ok then pushTanda (st\<lparr>usedIds := used', exchanges := exchanges st @ evs\<rparr>)
                \<lparr>td_style = s_style sl, td_role = s_role sl,
                 td_tracks = padToSize (s_size sl) chosen, td_seconds = secs\<rparr>
      else st\<lparr>usedIds := used', exchanges := exchanges st @ evs\<rparr>)"
    unfolding styleOnlyGroup_def Let_def p c prod.case ok_def secs_def tracks_def by simp
  show ?thesis
  proof (cases ok)
    case True
    then have "0 < secs" "secs \<le> remainingSeconds st + 30" by (simp_all add: ok_def)
    from slotEffect_push [OF c this, where sz = "s_size sl"] show ?thesis
      using True by (simp add: r)
  next
    case False
    then show ?thesis
      using chosen_keys(4,5) [OF c] by (simp add: r slotEffect_def)
  qed
qed

lemma styleOnlyAttempt_cases:
  "styleOnlyAttempt E sl st = (Some ReferenceError, st) \<or>
   (\<exists>styleOnly. length styleOnly < 2 \<and>
      styleOnlyAttempt E sl st = (None, styleOnlyGroup E sl styleOnly st))"
proof -
  define styleOnly where
    "styleOnly = shortlistCandidates (toLowerCase E) (s_style sl) (workingSet E) (usedIds st) 100"
  show ?thesis
  proof (cases "2 \<le> length styleOnly")
    case True
    then show ?thesis
      unfolding styleOnlyAttempt_def Let_def styleOnly_def [symmetric] by simp
  next
    case False
    then have "length styleOnly < 2 \<and>
               styleOnlyAttempt E sl st = (None, styleOnlyGroup E sl styleOnly st)"
      unfolding styleOnlyAttempt_def Let_def styleOnly_def [symmetric] by simp
    then show ?thesis by blast
  qed
qed

lemma slotEffect_refl: "slotEffect lc sz st st"
  by (simp add: slotEffect_def)

lemma styleOnlyAttempt_effect:
  "slotEffect (toLowerCase E) (s_size sl) st (snd (styleOnlyAttempt E sl st))"
  using styleOnlyAttempt_cases [of E sl st] styleOnlyGroup_effect [of E sl st] slotEffect_refl
  by (metis snd_conv)

lemma orchestraAttempt_cases:
  assumes "orchestraAttempt E sl suggestions st = (made, st1)"
  shows "(\<not> made \<and> st1 = st) \<or>
         (\<exists>ids evs tgt chosen used' secs.
            planOneTandaWithRetry (normalizeOrchestra E) (tandaOracle E)
              (length (attempts (exchanges st))) (s_size sl)
              (map slimOf (take 80 (filter (\<lambda>t. t_artist t = the tgt)
                 (baseRolePool (toLowerCase E) (workingSet E) sl (usedIds st)))))
              (Some (map slimOf (baseRolePool (toLowerCase E) (workingSet E) sl (usedIds st))))
              tgt (alternativeOrchestras E tgt) 3 = (ids, evs) \<and>
            collectChosen (toLowerCase E) (workingSet E) tgt (usedIds st) ids = (chosen, used') \<and>
            ((made \<and> 0 < secs \<and> secs \<le> remainingSeconds st + 30 \<and>
              st1 = pushTanda (st\<lparr>usedIds := used', exchanges := exchanges st @ evs\<rparr>)
                      \<lparr>td_style = s_style sl, td_role = s_role sl,
                       td_tracks = padToSize (s_size sl) chosen, td_seconds = secs\<rparr>) \<or>
             (\<not> made \<and> st1 = st\<lparr>usedIds := used', exchanges := exchanges st @ evs\<rparr>)))"
proof -
  define pool where "pool = baseRolePool (toLowerCase E) (workingSet E) sl (usedIds st)"
  define tgt where "tgt = pickTargetOrchestra (s_size sl) pool suggestions"
  define call where "call = filter (\<lambda>t. t_artist t = the tgt) pool"
  show ?thesis
  proof (cases "\<not> truthy tgt \<or> call = []")
    case True
    then have "made = False \<and> st1 = st"
      using assms unfolding orchestraAttempt_def Let_def pool_def [symmetric] tgt_def [symmetric]
        call_def [symmetric] by (auto split: if_splits)
    then show ?thesis by simp
  next
    case False
    obtain ids evs where p: "planOneTandaWithRetry (normalizeOrchestra E) (tandaOracle E)
                          (length (attempts (exchanges st))) (s_size sl)
                          (map slimOf (take 80 call)) (Some (map slimOf pool))
                          tgt (alternativeOrchestras E tgt) 3 = (ids, evs)"
      by (cases "planOneTandaWithRetry (normalizeOrchestra E) (tandaOracle E)
                          (length (attempts (exchanges st))) (s_size sl)
                          (map slimOf (take 80 call)) (Some (map slimOf pool))
                          tgt (alternativeOrchestras E tgt) 3")
    obtain chosen used' where
      c: "collectChosen (toLowerCase E) (workingSet E) tgt (usedIds st) ids = (chosen, used')"
      by (cases "collectChosen (toLowerCase E) (workingSet E) tgt (usedIds st) ids")
    define tracks where "tracks = padToSize (s_size sl) chosen"
    define secs where "secs = (if sum_list (map t_seconds tracks) \<le> 0
                             then 180 * of_nat (length tracks) else sum_list (map t_seconds tracks))"
    define ok where "ok = (tracks \<noteq> [] \<and> secs > 0 \<and> secs \<le> remainingSeconds st + 30)"
    have r: "orchestraAttempt E sl suggestions st =
       (if ok then (True, pushTanda (st\<lparr>usedIds := used', exchanges := exchanges st @ evs\<rparr>)
                  \<lparr>td_style = s_style sl, td_role = s_role sl,
                   td_tracks = padToSize (s_size sl) chosen, td_seconds = secs\<rparr>)
        else (False, st\<lparr>usedIds := used', exchanges := exchanges st @ evs\<rparr>))"
      using False
      unfolding orchestraAttempt_def Let_def pool_def [symmetric] tgt_def [symmetric]
        call_def [symmetric] p c prod.case ok_def secs_def tracks_def by simp
    have "(made \<and> 0 < secs \<and> secs \<le> remainingSeconds st + 30 \<and>
              st1 = pushTanda (st\<lparr>usedIds := used', exchanges := exchanges st @ evs\<rparr>)
                      \<lparr>td_style = s_style sl, td_role = s_role sl,
                       td_tracks = padToSize (s_size sl) chosen, td_seconds = secs\<rparr>) \<or>
          (\<not> made \<and> st1 = st\<lparr>usedIds := used', exchanges := exchanges st @ evs\<rparr>)"
      using assms unfolding r by (cases ok) (auto simp: ok_def)
    then show ?thesis
      using p c unfolding call_def pool_def by blast
  qed
qed

lemma orchestraAttempt_effect:
  assumes "orchestraAttempt E sl suggestions st = (made, st1)"
  shows "slotEffect (toLowerCase E) (s_size sl) st st1 \<and>
         (\<not> made \<longrightarrow> tandasResolved st1 = tandasResolved st \<and>
                      remainingSeconds st1 = remainingSeconds st)"
proof -
  from orchestraAttempt_cases [OF assms] consider
      "\<not> made" "st1 = st"
    | ids evs tgt chosen used' secs where
        "collectChosen (toLowerCase E) (workingSet E) tgt (usedIds st) ids = (chosen, used')"
        "made" "0 < secs" "secs \<le> remainingSeconds st + 30"
        "st1 = pushTanda (st\<lparr>usedIds := used', exchanges := exchanges st @ evs\<rparr>)
                      \<lparr>td_style = s_style sl, td_role = s_role sl,
                       td_tracks = padToSize (s_size sl) chosen, td_seconds = secs\<rparr>"
    | ids evs tgt chosen used' where
        "collectChosen (toLowerCase E) (workingSet E) tgt (usedIds st) ids = (chosen, used')"
        "\<not> made" "st1 = st\<lparr>usedIds := used', exchanges := exchanges st @ evs\<rparr>"
    by blast
  then show ?thesis
  proof cases
    case 1
    then show ?thesis by (simp add: slotEffect_def)
  next
    case 2
    then show ?thesis
      using slotEffect_push [OF 2(1), where sz = "s_size sl" and secs = secs] by simp
  next
    case 3
    then show ?thesis
      using chosen_keys(4,5) [OF 3(1)] by (simp add: slotEffect_def)
  qed
qed

lemma slotEffect_after_unchanged:
  assumes "set (usedIds st) \<subseteq> set (usedIds st1)"
    "distinct (usedIds st) \<longrightarrow> distinct (usedIds st1)"
    "tandasResolved st1 = tandasResolved st"
    "remainingSeconds st1 = remainingSeconds st" "slotEffect lc sz st1 st2"
  shows "slotEffect lc sz st st2"
  using assms unfolding slotEffect_def Let_def by auto

lemma planSlot_cases:
  "(orchestraOracle E i = None \<and> planSlot E i sl st = styleOnlyAttempt E sl st) \<or>
   (\<exists>suggestions made st1. orchestraOracle E i = Some suggestions \<and>
      orchestraAttempt E sl suggestions st = (made, st1) \<and>
      ((made \<and> planSlot E i sl st = (None, st1)) \<or>
       (\<not> made \<and> planSlot E i sl st = styleOnlyAttempt E sl st1)))"
proof (cases "orchestraOracle E i")
  case None
  then show ?thesis by (simp add: planSlot_def)
next
  case (Some suggestions)
  obtain made st1 where o: "orchestraAttempt E sl suggestions st = (made, st1)"
    by (cases "orchestraAttempt E sl suggestions st")
  show ?thesis
    using Some o by (cases made) (auto simp: planSlot_def)
qed

lemma planSlot_effect:
  "slotEffect (toLowerCase E) (s_size sl) st (snd (planSlot E i sl st))"
proof -
  from planSlot_cases [of E i sl st] consider
      "planSlot E i sl st = styleOnlyAttempt E sl st"
    | suggestions st1 where "orchestraAttempt E sl suggestions st = (True, st1)"
        "planSlot E i sl st = (None, st1)"
    | suggestions st1 where "orchestraAttempt E sl suggestions st = (False, st1)"
        "planSlot E i sl st = styleOnlyAttempt E sl st1"
    by auto
  then show ?thesis
  proof cases
    case 1
    then show ?thesis by (simp add: styleOnlyAttempt_effect)
  next
    case 2
    then show ?thesis using orchestraAttempt_effect [OF 2(1)] by simp
  next
    case 3
    note e = orchestraAttempt_effect [OF 3(1)]
    have "slotEffect (toLowerCase E) (s_size sl) st (snd (styleOnlyAttempt E sl st1))"
      using e styleOnlyAttempt_effect [of E sl st1]
      by (intro slotEffect_after_unchanged [of st st1]) (auto simp: slotEffect_def)
    then show ?thesis by (simp add: 3(2))
  qed
qed

lemma emittedTracks_push:
  "tandasResolved st' = tandasResolved st @ [td] \<Longrightarrow>
   emittedTracks st' = emittedTracks st @ filter (\<lambda>t. \<not> t_placeholder t) (td_tracks td)"
  by (simp add: emittedTracks_def)

lemma runInvariant_step:
  assumes inv: "runInvariant lc B st" and eff: "slotEffect lc sz st st'"
  shows "runInvariant lc B st'"
proof (cases "tandasResolved st' = tandasResolved st \<and> remainingSeconds st' = remainingSeconds st")
  case True
  then have "emittedTracks st' = emittedTracks st"
    by (simp add: emittedTracks_def)
  then show ?thesis
    using True inv eff unfolding runInvariant_def slotEffect_def by auto
next
  case False
  define td where "td = last (tandasResolved st')"
  define keys where "keys = map (trackKey lc) (filter (\<lambda>t. \<not> t_placeholder t) (td_tracks td))"
  have p: "tandasResolved st' = tandasResolved st @ [td]"
    "remainingSeconds st' = remainingSeconds st - td_seconds td"
    "td_seconds td \<le> remainingSeconds st + 30"
    "distinct keys" "set keys \<inter> set (usedIds st) = {}" "set keys \<subseteq> set (usedIds st')"
    "set (usedIds st) \<subseteq> set (usedIds st')"
    "distinct (usedIds st) \<longrightarrow> distinct (usedIds st')"
    using eff False unfolding slotEffect_def Let_def td_def keys_def by auto
  have e: "map (trackKey lc) (emittedTracks st') = map (trackKey lc) (emittedTracks st) @ keys"
    by (simp add: emittedTracks_push [OF p(1)] keys_def)
  have old: "distinct (map (trackKey lc) (emittedTracks st))"
    "set (map (trackKey lc) (emittedTracks st)) \<subseteq> set (usedIds st)"
    "sum_list (map td_seconds (tandasResolved st)) = B - remainingSeconds st"
    "distinct (usedIds st)"
    using inv unfolding runInvariant_def by auto
  have "sum_list (map td_seconds (tandasResolved st')) = B - remainingSeconds st'"
    using old(3) p(1,2) by simp
  moreover have "- 30 \<le> remainingSeconds st'"
    using p(2,3) by simp
  moreover have "distinct (map (trackKey lc) (emittedTracks st'))"
    unfolding e using old(1,2) p(4,5) by auto
  moreover have "set (map (trackKey lc) (emittedTracks st')) \<subseteq> set (usedIds st')"
    unfolding e using old(2) p(6,7) by auto
  moreover have "distinct (usedIds st')"
    using old(4) p(8) by simp
  ultimately show ?thesis
    unfolding runInvariant_def by blast
qed

lemma planningLoop_invariant:
  "runInvariant (toLowerCase E) B st \<Longrightarrow>
   runInvariant (toLowerCase E) B (snd (planningLoop E i slots st))"
proof (induction slots arbitrary: i st)
  case Nil
  then show ?case by simp
next
  case (Cons sl slots)
  show ?case
  proof (cases "remainingSeconds st \<le> 60")
    case True
    then show ?thesis using Cons.prems by simp
  next
    case False
    obtain e st1 where s: "planSlot E i sl st = (e, st1)"
      by (cases "planSlot E i sl st")
    have i1: "runInvariant (toLowerCase E) B st1"
      using runInvariant_step [OF Cons.prems planSlot_effect [of E sl st i]] s by simp
    show ?thesis
    proof (cases e)
      case None
      then show ?thesis using False s Cons.IH [OF i1] by simp
    next
      case (Some err)
      then show ?thesis using False s i1 by simp
    qed
  qed
qed

lemma generate_invariant:
  "runInvariant (toLowerCase E) (minutes * 60) (snd (generate E minutes slots))"
  unfolding generate_def
  by (rule planningLoop_invariant) (simp add: runInvariant_def initialState_def emittedTracks_def)

lemma tandaBlocks_of_planBlocks:
  "filter isTandaBlock (planBlocks cortinas i tds) = map TandaBlock tds"
  by (induction cortinas i tds rule: planBlocks.induct) simp_all

lemma cortinaBlocks_of_planBlocks:
  "length (filter (\<lambda>b. \<not> isTandaBlock b) (planBlocks cortinas i tds)) = length tds - 1"
  by (induction cortinas i tds rule: planBlocks.induct) simp_all

lemma sum_list_split:
  "sum_list (map f xs) =
   sum_list (map f (filter P xs)) + sum_list (map f (filter (\<lambda>x. \<not> P x) xs))"
  for f :: "'a \<Rightarrow> rat"
  by (induction xs) simp_all
















section \<open>Properties of the replacement service\<close>

lemma resolveId_Some:
  assumes "resolveId lc ws i = Some tr"
  shows "tr \<in> set ws \<and> trackKey lc tr = idKey lc i"
proof (cases "find (\<lambda>t. getId t = i) (rev ws)")
  case None
  then have "find (\<lambda>t. trackKey lc t = idKey lc i) (rev ws) = Some tr"
    using assms by (simp add: resolveId_def)
  then show ?thesis
    using find_rev_mem [of "\<lambda>t. trackKey lc t = idKey lc i" ws tr] by simp
next
  case (Some t)
  then have "t = tr" using assms by (simp add: resolveId_def)
  then show ?thesis
    using find_rev_mem [of "\<lambda>t. getId t = i" ws t] Some by (auto simp: trackKey_def)
qed

lemma stylePool_notExcluded:
  "t \<in> set (stylePool lc rq) \<Longrightarrow>
   notExcluded lc (toSet lc (rq_avoidIds rq)) (toSet lc (rq_previouslySelected rq)) t"
  by (simp add: stylePool_def excludedSets_def)

lemma narrowedPool_notExcluded:
  "t \<in> set (narrowedPool lc rq) \<Longrightarrow>
   notExcluded lc (toSet lc (rq_avoidIds rq)) (toSet lc (rq_previouslySelected rq)) t"
  using stylePool_notExcluded [of t lc rq]
  by (simp add: narrowedPool_def Let_def split: if_splits)

lemma broadenedPool_notExcluded:
  assumes "t \<in> set (broadenedPool lc rq base)"
    and "\<forall>x\<in>set base. notExcluded lc (toSet lc (rq_avoidIds rq)) (toSet lc (rq_previouslySelected rq)) x"
  shows "notExcluded lc (toSet lc (rq_avoidIds rq)) (toSet lc (rq_previouslySelected rq)) t"
proof -
  define base2 where "base2 = (if truthy (replaceTarget lc rq) then stylePool lc rq else base)"
  have b2: "\<forall>x\<in>set base2.
              notExcluded lc (toSet lc (rq_avoidIds rq)) (toSet lc (rq_previouslySelected rq)) x"
    using assms(2) stylePool_notExcluded [of _ lc rq] by (simp add: base2_def)
  show ?thesis
    using assms(1) b2
    unfolding broadenedPool_def excludedSets_def prod.case Let_def base2_def [symmetric]
    by (simp split: if_splits)
qed

lemma replacePool_notExcluded:
  assumes "t \<in> set (replacePool lc rq)"
  shows "notExcluded lc (toSet lc (rq_avoidIds rq)) (toSet lc (rq_previouslySelected rq)) t"
proof -
  have n: "\<forall>x\<in>set (narrowedPool lc rq).
             notExcluded lc (toSet lc (rq_avoidIds rq)) (toSet lc (rq_previouslySelected rq)) x"
    using narrowedPool_notExcluded by blast
  show ?thesis
  proof (cases "replacePool lc rq = narrowedPool lc rq")
    case True
    then show ?thesis using assms n by simp
  next
    case False
    then have "replacePool lc rq = broadenedPool lc rq (narrowedPool lc rq)"
      unfolding replacePool_def Let_def by (simp split: if_splits)
    then show ?thesis
      using assms broadenedPool_notExcluded [OF _ n] by simp
  qed
qed

lemma replaceSlim_from_pool:
  assumes "i \<in> set (replaceSlim lc rq)"
  shows "\<exists>t\<in>set (replacePool lc rq). i = getId t"
proof -
  have "i \<in> getId ` set (take (max 80 (rq_topK rq)) (sort_key (rq_score rq) (replacePool lc rq)))"
    using assms unfolding replaceSlim_def scoredPool_def by simp
  then obtain t where t: "t \<in> set (take (max 80 (rq_topK rq)) (sort_key (rq_score rq) (replacePool lc rq)))"
    "i = getId t" by blast
  then have "t \<in> set (sort_key (rq_score rq) (replacePool lc rq))"
    by (meson in_set_takeD)
  then show ?thesis using t(2) by auto
qed

lemma replaceSlim_keys:
  assumes "i \<in> set (replaceSlim lc rq)"
  shows "idKey lc i \<notin> toSet lc (rq_avoidIds rq) \<and> idKey lc i \<notin> toSet lc (rq_previouslySelected rq)"
proof -
  obtain t where t: "t \<in> set (replacePool lc rq)" "i = getId t"
    using replaceSlim_from_pool [OF assms] by blast
  then show ?thesis
    using replacePool_notExcluded [OF t(1)] by (simp add: notExcluded_def trackKey_def)
qed

lemma chooseReplacement_fallback_mem:
  assumes "\<not> agentAccepted lc (toSet lc (rq_avoidIds rq)) (toSet lc (rq_previouslySelected rq)) reply"
    and "slim \<noteq> []"
  shows "fst (chooseReplacement lc rq slim reply) \<in> set slim"
proof -
  define valid where "valid = filter (\<lambda>i. idKey lc i \<notin> toSet lc (rq_avoidIds rq) \<and>
                                  idKey lc i \<notin> toSet lc (rq_previouslySelected rq)) slim"
  define vc where "vc = (if valid = [] then slim else valid)"
  have ne: "vc \<noteq> []" using assms(2) by (simp add: vc_def)
  then have "vc ! (rq_random rq mod length vc) \<in> set vc"
    by (intro nth_mem) simp
  moreover have "set vc \<subseteq> set slim"
    by (auto simp: vc_def valid_def)
  moreover have "fst (chooseReplacement lc rq slim reply) = vc ! (rq_random rq mod length vc)"
    using assms(1) unfolding chooseReplacement_def Let_def vc_def valid_def by simp
  ultimately show ?thesis by auto
qed

lemma chooseReplacement_key:
  assumes "slim = replaceSlim lc rq" "slim \<noteq> []"
  shows "idKey lc (fst (chooseReplacement lc rq slim reply)) \<notin> toSet lc (rq_avoidIds rq) \<and>
         idKey lc (fst (chooseReplacement lc rq slim reply)) \<notin> toSet lc (rq_previouslySelected rq)"
proof (cases "agentAccepted lc (toSet lc (rq_avoidIds rq)) (toSet lc (rq_previouslySelected rq)) reply")
  case True
  then show ?thesis
    unfolding chooseReplacement_def Let_def agentAccepted_def by (auto split: option.splits)
next
  case False
  from chooseReplacement_fallback_mem [OF False assms(2)] show ?thesis
    using replaceSlim_keys [of _ lc rq] assms(1) by blast
qed


lemma resolved_same_key:
  "idKey lc (case resolveId lc ws i of Some t \<Rightarrow> getId t | None \<Rightarrow> i) = idKey lc i"
proof (cases "resolveId lc ws i")
  case None
  then show ?thesis by simp
next
  case (Some t)
  then show ?thesis
    using resolveId_Some [OF Some] by (simp add: trackKey_def)
qed

lemma suggestionsOut_keys:
  assumes "s \<in> set (suggestionsOut lc ws avoid prev topK rid suggestions slim)"
  shows "idKey lc s \<notin> avoid \<and> idKey lc s \<notin> prev"
proof -
  define kept where "kept = filter (\<lambda>i. idKey lc i \<notin> avoid \<and> idKey lc i \<notin> prev \<and>
                        idKey lc i \<noteq> idKey lc rid) suggestions"
  define resolved where "resolved =
      take topK (map (\<lambda>i. case resolveId lc ws i of Some t \<Rightarrow> getId t | None \<Rightarrow> i) kept)"
  define additional where "additional =
            take (topK - length resolved)
              (filter (\<lambda>i. idKey lc i \<notin> avoid \<and> idKey lc i \<notin> prev \<and>
                            idKey lc i \<noteq> idKey lc rid \<and>
                            idKey lc i \<notin> set (map (idKey lc) resolved)) slim)"
  have r: "\<forall>x\<in>set resolved. idKey lc x \<notin> avoid \<and> idKey lc x \<notin> prev"
  proof
    fix x assume "x \<in> set resolved"
    then have "x \<in> set (map (\<lambda>i. case resolveId lc ws i of Some t \<Rightarrow> getId t | None \<Rightarrow> i) kept)"
      unfolding resolved_def by (meson in_set_takeD)
    then obtain i where i: "i \<in> set kept"
      "x = (case resolveId lc ws i of Some t \<Rightarrow> getId t | None \<Rightarrow> i)" by auto
    have "idKey lc x = idKey lc i" unfolding i(2) by (rule resolved_same_key)
    then show "idKey lc x \<notin> avoid \<and> idKey lc x \<notin> prev"
      using i(1) by (simp add: kept_def)
  qed
  have a: "\<forall>x\<in>set additional. idKey lc x \<notin> avoid \<and> idKey lc x \<notin> prev"
  proof
    fix x assume "x \<in> set additional"
    then have "x \<in> set (filter (\<lambda>i. idKey lc i \<notin> avoid \<and> idKey lc i \<notin> prev \<and>
                            idKey lc i \<noteq> idKey lc rid \<and>
                            idKey lc i \<notin> set (map (idKey lc) resolved)) slim)"
      unfolding additional_def by (meson in_set_takeD)
    then show "idKey lc x \<notin> avoid \<and> idKey lc x \<notin> prev" by simp
  qed
  have "s \<in> set resolved \<or> s \<in> set additional"
    using assms
    unfolding suggestionsOut_def Let_def kept_def [symmetric] resolved_def [symmetric]
      additional_def [symmetric]
    by (auto split: if_splits)
  then show ?thesis using r a by blast
qed

lemma stylePool_subset: "set (stylePool lc rq) \<subseteq> set (rq_workingSet rq)"
  by (auto simp: stylePool_def Let_def split: prod.splits)

lemma narrowedPool_subset: "set (narrowedPool lc rq) \<subseteq> set (rq_workingSet rq)"
  using stylePool_subset [of lc rq] by (auto simp: narrowedPool_def Let_def)

lemma broadenedPool_subset:
  "set base \<subseteq> set (rq_workingSet rq) \<Longrightarrow> set (broadenedPool lc rq base) \<subseteq> set (rq_workingSet rq)"
  using stylePool_subset [of lc rq]
  by (auto simp: broadenedPool_def Let_def split: prod.splits if_splits)

lemma replacePool_subset: "set (replacePool lc rq) \<subseteq> set (rq_workingSet rq)"
  using narrowedPool_subset [of lc rq] broadenedPool_subset [OF narrowedPool_subset [of lc rq]]
  by (auto simp: replacePool_def Let_def)

lemma resolveId_raw:
  assumes "t \<in> set ws"
  shows "\<exists>tr. resolveId lc ws (getId t) = Some tr \<and> getId tr = getId t"
proof -
  have "t \<in> set (rev ws)" using assms by simp
  then obtain tr where f: "find (\<lambda>x. getId x = getId t) (rev ws) = Some tr"
    by (cases "find (\<lambda>x. getId x = getId t) (rev ws)") (auto simp: find_None_iff)
  then have "getId tr = getId t" by (auto simp: find_Some_iff)
  then show ?thesis using f by (simp add: resolveId_def)
qed

lemma replaceSlim_resolves:
  assumes "i \<in> set (replaceSlim lc rq)"
  shows "\<exists>tr. resolveId lc (rq_workingSet rq) i = Some tr \<and> getId tr = i"
proof -
  obtain t where t: "t \<in> set (replacePool lc rq)" "i = getId t"
    using replaceSlim_from_pool [OF assms] by blast
  then have "t \<in> set (rq_workingSet rq)" using replacePool_subset by blast
  from resolveId_raw [OF this] show ?thesis using t(2) by simp
qed

lemma replaceRoute_Inr:
  assumes "replaceRoute lc rq reply = Inr (rid, sugg)"
  shows "replaceSlim lc rq \<noteq> [] \<and>
         (\<exists>tr. rid = getId tr \<and>
            (resolveId lc (rq_workingSet rq) (fst (chooseReplacement lc rq (replaceSlim lc rq) reply)) = Some tr \<or>
             resolveId lc (rq_workingSet rq) (hd (replaceSlim lc rq)) = Some tr)) \<and>
         sugg = suggestionsOut lc (rq_workingSet rq) (toSet lc (rq_avoidIds rq))
                  (toSet lc (rq_previouslySelected rq)) (rq_topK rq) rid
                  (snd (chooseReplacement lc rq (replaceSlim lc rq) reply)) (replaceSlim lc rq)"
proof -
  define slim where "slim = replaceSlim lc rq"
  obtain cid suggs where c: "chooseReplacement lc rq slim reply = (cid, suggs)"
    by (cases "chooseReplacement lc rq slim reply")
  define chosen where "chosen = (case resolveId lc (rq_workingSet rq) cid of
                        Some t \<Rightarrow> Some t
                      | None \<Rightarrow> resolveId lc (rq_workingSet rq) (hd slim))"
  define noId where "noId = (\<exists>t\<in>set (take 3 (scoredPool lc rq)). getId t = None)"
  have ne: "slim \<noteq> []" "rq_workingSet rq \<noteq> []" "rq_style rq \<noteq> []" "\<not> noId"
    using assms unfolding replaceRoute_def Let_def slim_def [symmetric] noId_def [symmetric]
    by (auto split: if_splits)
  have r: "replaceRoute lc rq reply =
      (case chosen of
         None \<Rightarrow> Inl Status500
       | Some tr \<Rightarrow>
           if idKey lc (getId tr) \<in> toSet lc (rq_avoidIds rq) then Inl Status500
           else Inr (getId tr,
                  suggestionsOut lc (rq_workingSet rq) (toSet lc (rq_avoidIds rq))
                    (toSet lc (rq_previouslySelected rq)) (rq_topK rq) (getId tr) suggs slim))"
    using ne
    unfolding replaceRoute_def Let_def slim_def [symmetric] noId_def [symmetric] c prod.case
      chosen_def
    by simp
  obtain tr where tr: "chosen = Some tr"
    using assms unfolding r by (cases chosen) auto
  have fin: "rid = getId tr"
    "sugg = suggestionsOut lc (rq_workingSet rq) (toSet lc (rq_avoidIds rq))
                    (toSet lc (rq_previouslySelected rq)) (rq_topK rq) (getId tr) suggs slim"
    using assms unfolding r tr by (auto split: if_splits)
  have k: "resolveId lc (rq_workingSet rq) cid = Some tr \<or>
           resolveId lc (rq_workingSet rq) (hd slim) = Some tr"
    using tr unfolding chosen_def by (cases "resolveId lc (rq_workingSet rq) cid") auto
  show ?thesis
    using ne(1) k fin c unfolding slim_def by auto
qed

lemma agentAccepted_excluded:
  "matchKey lc (fst out) \<in> avoid \<or> matchKey lc (fst out) \<in> prev \<Longrightarrow>
     agentAccepted lc avoid prev (Some out) = agentAccepted lc avoid prev None"
  by (auto simp: agentAccepted_def)

lemma chooseReplacement_excluded:
  assumes "matchKey lc (fst out) \<in> toSet lc (rq_avoidIds rq) \<or>
           matchKey lc (fst out) \<in> toSet lc (rq_previouslySelected rq)"
  shows "chooseReplacement lc rq slim (Some out) = chooseReplacement lc rq slim None"
    and "\<not> agentAccepted lc (toSet lc (rq_avoidIds rq)) (toSet lc (rq_previouslySelected rq)) (Some out)"
  using assms by (auto simp: chooseReplacement_def agentAccepted_def Let_def)

lemma replaceRoute_excluded:
  assumes "matchKey lc (fst out) \<in> toSet lc (rq_avoidIds rq) \<or>
           matchKey lc (fst out) \<in> toSet lc (rq_previouslySelected rq)"
  shows "replaceRoute lc rq (Some out) = replaceRoute lc rq None"
  unfolding replaceRoute_def Let_def chooseReplacement_excluded(1) [OF assms] ..

section \<open>The sequence assembler: claims\<close>

text \<open>
  Claim C1, as amended. For a completed run with a budget of at least 0 minutes the
  seconds of all groups of the emitted sequence sum to at most minutes * 60 + 30. The
  sequence holds one cortina less than groups, and its total duration is the sum of the
  groups plus the sum of the cortinas, which are not counted against the budget.
\<close>

theorem tanda_seconds_within_budget:
  "0 \<le> minutes \<Longrightarrow> generate E minutes slots = (None, st) \<Longrightarrow>
   sum_list (map blockSeconds (filter isTandaBlock
      (planBlocks cortinas 0 (tandasResolved st))))
     \<le> minutes * 60 + 30 \<and>
   length (filter (\<lambda>b. \<not> isTandaBlock b)
      (planBlocks cortinas 0 (tandasResolved st))) =
     length (tandasResolved st) - 1 \<and>
   totalSeconds (planBlocks cortinas 0 (tandasResolved st)) =
     sum_list (map blockSeconds (filter isTandaBlock
        (planBlocks cortinas 0 (tandasResolved st)))) +
     sum_list (map blockSeconds (filter (\<lambda>b. \<not> isTandaBlock b)
        (planBlocks cortinas 0 (tandasResolved st))))"
proof -
  assume m: "0 \<le> minutes" and g: "generate E minutes slots = (None, st)"
  have inv: "sum_list (map td_seconds (tandasResolved st)) = minutes * 60 - remainingSeconds st"
    "tandasResolved st = [] \<or> - 30 \<le> remainingSeconds st"
    using generate_invariant [of E minutes slots] unfolding runInvariant_def g by auto
  have "sum_list (map td_seconds (tandasResolved st)) \<le> minutes * 60 + 30"
  proof (cases "tandasResolved st = []")
    case True
    then show ?thesis using m by simp
  next
    case False
    then show ?thesis using inv by simp
  qed
  then have a: "sum_list (map blockSeconds (filter isTandaBlock
      (planBlocks cortinas 0 (tandasResolved st)))) \<le> minutes * 60 + 30"
    by (simp add: tandaBlocks_of_planBlocks comp_def)
  show ?thesis
    using a cortinaBlocks_of_planBlocks [of cortinas 0 "tandasResolved st"]
      sum_list_split [of blockSeconds "planBlocks cortinas 0 (tandasResolved st)" isTandaBlock]
    unfolding totalSeconds_def by blast
qed

theorem tanda_seconds_within_budget_witness:
  "(0::rat) \<le> 11 \<and>
   fst (generate scenarioC 11
         [\<lparr>s_style = ''Tango'', s_role = ''classic'', s_size = 2\<rparr>,
          \<lparr>s_style = ''Tango'', s_role = ''classic'', s_size = 2\<rparr>]) = None \<and>
   map td_seconds (tandasResolved (snd (generate scenarioC 11
         [\<lparr>s_style = ''Tango'', s_role = ''classic'', s_size = 2\<rparr>,
          \<lparr>s_style = ''Tango'', s_role = ''classic'', s_size = 2\<rparr>]))) = [330, 360] \<and>
   sum_list (map blockSeconds (filter isTandaBlock
      (planBlocks [] 0 (tandasResolved (snd (generate scenarioC 11
         [\<lparr>s_style = ''Tango'', s_role = ''classic'', s_size = 2\<rparr>,
          \<lparr>s_style = ''Tango'', s_role = ''classic'', s_size = 2\<rparr>]))))))
     \<le> 11 * 60 + 30"
proof -
  define run where "run = generate scenarioC 11
         [\<lparr>s_style = ''Tango'', s_role = ''classic'', s_size = 2\<rparr>,
          \<lparr>s_style = ''Tango'', s_role = ''classic'', s_size = 2\<rparr>]"
  have h: "(0::rat) \<le> 11" by simp
  have f: "fst run = None" unfolding run_def by code_simp
  have s: "map td_seconds (tandasResolved (snd run)) = [330, 360]" unfolding run_def by code_simp
  have g: "generate scenarioC 11
         [\<lparr>s_style = ''Tango'', s_role = ''classic'', s_size = 2\<rparr>,
          \<lparr>s_style = ''Tango'', s_role = ''classic'', s_size = 2\<rparr>] = (None, snd run)"
    using f unfolding run_def by (metis prod.collapse)
  show ?thesis
    using h f s tanda_seconds_within_budget [OF h g, of "[]"]
    unfolding run_def by blast
qed

text \<open>
  Claim C1 as stated counts the cortinas too. With a budget of 11 minutes, on the
  origin-aware path, two groups of 330 and 360 seconds are accepted (the second fits the
  remaining 330 seconds plus 30); the run completes, and with the cortina of 60 seconds
  between the groups the sequence lasts 750 seconds, more than 660 + 60.
\<close>

theorem total_duration_counterexample:
  "fst (generate scenarioC 11
       [\<lparr>s_style = ''Tango'', s_role = ''classic'', s_size = 2\<rparr>,
        \<lparr>s_style = ''Tango'', s_role = ''classic'', s_size = 2\<rparr>]) = None \<and>
   map call_orchestra (attempts (exchanges (snd (generate scenarioC 11
       [\<lparr>s_style = ''Tango'', s_role = ''classic'', s_size = 2\<rparr>,
        \<lparr>s_style = ''Tango'', s_role = ''classic'', s_size = 2\<rparr>])))) = [Some ''X'', Some ''X''] \<and>
   totalSeconds (planBlocks [] 0 (tandasResolved (snd (generate scenarioC 11
       [\<lparr>s_style = ''Tango'', s_role = ''classic'', s_size = 2\<rparr>,
        \<lparr>s_style = ''Tango'', s_role = ''classic'', s_size = 2\<rparr>])))) = 750 \<and>
   \<not> totalSeconds (planBlocks [] 0 (tandasResolved (snd (generate scenarioC 11
       [\<lparr>s_style = ''Tango'', s_role = ''classic'', s_size = 2\<rparr>,
        \<lparr>s_style = ''Tango'', s_role = ''classic'', s_size = 2\<rparr>])))) \<le> 11 * 60 + 60"
  by code_simp

text \<open>
  Claim C3. In the groups of a run, completed or ended by an exception, no normalized key
  occurs twice, every key of an emitted track is in the used set, and the used set has no
  duplicates. When a reply is accepted, an identity whose normalized key is already used
  is skipped, whatever its spelling, and no accepted track has a key that was used before.
  The normalized key is \<^verbatim>\<open>matchKey\<close>, for every lower-casing function.
\<close>

theorem no_identity_in_two_groups:
  "distinct (map (trackKey (toLowerCase E)) (emittedTracks (snd (generate E minutes slots)))) \<and>
   set (map (trackKey (toLowerCase E)) (emittedTracks (snd (generate E minutes slots))))
     \<subseteq> set (usedIds (snd (generate E minutes slots))) \<and>
   distinct (usedIds (snd (generate E minutes slots))) \<and>
   (matchKey lc i \<in> set used \<longrightarrow>
      collectChosen lc ws tgt used (i # ids) = collectChosen lc ws tgt used ids) \<and>
   (\<forall>t\<in>set (fst (collectChosen lc ws tgt used ids)). trackKey lc t \<notin> set used)"
proof -
  have inv: "runInvariant (toLowerCase E) (minutes * 60) (snd (generate E minutes slots))"
    by (rule generate_invariant)
  obtain chosen used' where c: "collectChosen lc ws tgt used ids = (chosen, used')"
    by (cases "collectChosen lc ws tgt used ids")
  have "\<forall>t\<in>set (fst (collectChosen lc ws tgt used ids)). trackKey lc t \<notin> set used"
    using collectChosen_props [OF c] unfolding c by auto
  moreover have "matchKey lc i \<in> set used \<longrightarrow>
      collectChosen lc ws tgt used (i # ids) = collectChosen lc ws tgt used ids"
    by (simp add: isUsed_def)
  ultimately show ?thesis
    using inv unfolding runInvariant_def by blast
qed

theorem no_identity_in_two_groups_witness:
  "map (\<lambda>td. map getId (td_tracks td))
     (tandasResolved (snd (generate scenarioE 30
        [\<lparr>s_style = ''Tango'', s_role = ''classic'', s_size = 2\<rparr>,
         \<lparr>s_style = ''Tango'', s_role = ''classic'', s_size = 2\<rparr>]))) =
     [[Some ''c:/music/a.mp3'', Some ''c:/music/b.mp3''],
      [Some ''c:/music/c.mp3'', Some ''c:/music/d.mp3'']] \<and>
   usedIds (snd (generate scenarioE 30
        [\<lparr>s_style = ''Tango'', s_role = ''classic'', s_size = 2\<rparr>,
         \<lparr>s_style = ''Tango'', s_role = ''classic'', s_size = 2\<rparr>])) =
     [''c:/music/a'', ''c:/music/b'', ''c:/music/c'', ''c:/music/d''] \<and>
   distinct (map (trackKey (toLowerCase scenarioE))
     (emittedTracks (snd (generate scenarioE 30
        [\<lparr>s_style = ''Tango'', s_role = ''classic'', s_size = 2\<rparr>,
         \<lparr>s_style = ''Tango'', s_role = ''classic'', s_size = 2\<rparr>])))) \<and>
   matchKey lowerASCII (''C:'' @ [CHR 0x5C] @ ''Music'' @ [CHR 0x5C] @ ''A.MP3'')
     \<in> set [''c:/music/a'', ''c:/music/b''] \<and>
   collectChosen lowerASCII (workingSet scenarioE) (Some ''X'') [''c:/music/a'', ''c:/music/b'']
     [''C:'' @ [CHR 0x5C] @ ''Music'' @ [CHR 0x5C] @ ''A.MP3'', ''c%3A/music/b.wav'',
      ''c:/music/c.mp3'', ''c:/music/d.mp3''] =
   collectChosen lowerASCII (workingSet scenarioE) (Some ''X'') [''c:/music/a'', ''c:/music/b'']
     [''c%3A/music/b.wav'', ''c:/music/c.mp3'', ''c:/music/d.mp3''] \<and>
   fst (collectChosen lowerASCII (workingSet scenarioE) (Some ''X'') [''c:/music/a'', ''c:/music/b'']
     [''c%3A/music/b.wav'', ''c:/music/c.mp3'', ''c:/music/d.mp3'']) =
     [demoTrack ''c:/music/c.mp3'' ''X'' ''Tango'' 200, demoTrack ''c:/music/d.mp3'' ''X'' ''Tango'' 200] \<and>
   trackKey lowerASCII (demoTrack ''c:/music/c.mp3'' ''X'' ''Tango'' 200)
     \<notin> set [''c:/music/a'', ''c:/music/b'']"
proof -
  define run where "run = snd (generate scenarioE 30
        [\<lparr>s_style = ''Tango'', s_role = ''classic'', s_size = 2\<rparr>,
         \<lparr>s_style = ''Tango'', s_role = ''classic'', s_size = 2\<rparr>])"
  have g: "map (\<lambda>td. map getId (td_tracks td)) (tandasResolved run) =
     [[Some ''c:/music/a.mp3'', Some ''c:/music/b.mp3''],
      [Some ''c:/music/c.mp3'', Some ''c:/music/d.mp3'']]"
    unfolding run_def by code_simp
  have u: "usedIds run = [''c:/music/a'', ''c:/music/b'', ''c:/music/c'', ''c:/music/d'']"
    unfolding run_def by code_simp
  have k: "matchKey lowerASCII (''C:'' @ [CHR 0x5C] @ ''Music'' @ [CHR 0x5C] @ ''A.MP3'')
     \<in> set [''c:/music/a'', ''c:/music/b'']"
    by code_simp
  have f: "fst (collectChosen lowerASCII (workingSet scenarioE) (Some ''X'')
     [''c:/music/a'', ''c:/music/b'']
     [''c%3A/music/b.wav'', ''c:/music/c.mp3'', ''c:/music/d.mp3'']) =
     [demoTrack ''c:/music/c.mp3'' ''X'' ''Tango'' 200, demoTrack ''c:/music/d.mp3'' ''X'' ''Tango'' 200]"
    by code_simp
  have m: "demoTrack ''c:/music/c.mp3'' ''X'' ''Tango'' 200 \<in> set (fst (collectChosen lowerASCII
     (workingSet scenarioE) (Some ''X'') [''c:/music/a'', ''c:/music/b'']
     [''c%3A/music/b.wav'', ''c:/music/c.mp3'', ''c:/music/d.mp3'']))"
    unfolding f by simp
  note t1 = no_identity_in_two_groups [of scenarioE 30
        "[\<lparr>s_style = ''Tango'', s_role = ''classic'', s_size = 2\<rparr>,
          \<lparr>s_style = ''Tango'', s_role = ''classic'', s_size = 2\<rparr>]"
        lowerASCII "''C:'' @ [CHR 0x5C] @ ''Music'' @ [CHR 0x5C] @ ''A.MP3''"
        "[''c:/music/a'', ''c:/music/b'']" "workingSet scenarioE" "Some ''X''"
        "[''c%3A/music/b.wav'', ''c:/music/c.mp3'', ''c:/music/d.mp3'']"]
  show ?thesis
    using g u k f m t1 unfolding run_def by blast
qed





text \<open>
  Claim C2 at a failing input. The slot asks for 3 tracks; the oracle returns 4
  identities of the target origin, all valid; the run completes and the group has 4
  tracks.
\<close>

theorem group_longer_than_slot:
  "fst (generate scenarioB 30 [\<lparr>s_style = ''Tango'', s_role = ''classic'', s_size = 3\<rparr>]) = None \<and>
   map (\<lambda>td. length (td_tracks td))
     (tandasResolved (snd (generate scenarioB 30
        [\<lparr>s_style = ''Tango'', s_role = ''classic'', s_size = 3\<rparr>]))) = [4] \<and>
   exchanges (snd (generate scenarioB 30 [\<lparr>s_style = ''Tango'', s_role = ''classic'', s_size = 3\<rparr>])) =
     [Attempt \<lparr>call_orchestra = Some ''X'',
        call_candidates =
          [\<lparr>c_id = Some ''a'', c_artist = ''X''\<rparr>, \<lparr>c_id = Some ''b'', c_artist = ''X''\<rparr>,
           \<lparr>c_id = Some ''c'', c_artist = ''X''\<rparr>, \<lparr>c_id = Some ''d'', c_artist = ''X''\<rparr>],
        call_trackIds = Some [''a'', ''b'', ''c'', ''d'']\<rparr>]"
  by code_simp

section \<open>The replacement service: claim\<close>

text \<open>
  Claim C6. Whenever the replacement route answers with a replacement, the normalized
  key of the replacement and of every suggestion is neither among the avoided keys nor
  among the keys picked before for the position, whatever the oracle replied and
  whatever function \<open>lc\<close> the platform's lower-casing is. When the
  oracle's chosen identity has such a key, the route answers exactly as for a failed
  oracle call, and the replacement is the identity of one of the slim candidate rows,
  that is, of a track of the candidate pool that is not excluded.
\<close>

theorem replacement_never_excluded:
  "(replaceRoute lc rq reply = Inr (rid, sugg) \<longrightarrow>
      idKey lc rid \<notin> toSet lc (rq_avoidIds rq) \<and> idKey lc rid \<notin> toSet lc (rq_previouslySelected rq) \<and>
      (\<forall>s\<in>set sugg. idKey lc s \<notin> toSet lc (rq_avoidIds rq) \<and>
                     idKey lc s \<notin> toSet lc (rq_previouslySelected rq))) \<and>
   (reply = Some out \<and>
    (matchKey lc (fst out) \<in> toSet lc (rq_avoidIds rq) \<or>
     matchKey lc (fst out) \<in> toSet lc (rq_previouslySelected rq)) \<longrightarrow>
      replaceRoute lc rq reply = replaceRoute lc rq None \<and>
      (replaceRoute lc rq reply = Inr (rid, sugg) \<longrightarrow>
         rid \<in> set (replaceSlim lc rq) \<and>
         (\<exists>t\<in>set (replacePool lc rq). rid = getId t \<and>
            notExcluded lc (toSet lc (rq_avoidIds rq)) (toSet lc (rq_previouslySelected rq)) t)))"
proof (intro conjI impI)
  assume h: "replaceRoute lc rq reply = Inr (rid, sugg)"
  define slim where "slim = replaceSlim lc rq"
  from replaceRoute_Inr [OF h] obtain tr where
    ne: "slim \<noteq> []" and rid: "rid = getId tr" and
    res: "resolveId lc (rq_workingSet rq) (fst (chooseReplacement lc rq slim reply)) = Some tr \<or>
          resolveId lc (rq_workingSet rq) (hd slim) = Some tr" and
    sg: "sugg = suggestionsOut lc (rq_workingSet rq) (toSet lc (rq_avoidIds rq))
                  (toSet lc (rq_previouslySelected rq)) (rq_topK rq) rid
                  (snd (chooseReplacement lc rq slim reply)) slim"
    unfolding slim_def by blast
  have k: "idKey lc rid = idKey lc (fst (chooseReplacement lc rq slim reply)) \<or> idKey lc rid = idKey lc (hd slim)"
    using res resolveId_Some unfolding rid trackKey_def by metis
  have c: "idKey lc (fst (chooseReplacement lc rq slim reply)) \<notin> toSet lc (rq_avoidIds rq) \<and>
           idKey lc (fst (chooseReplacement lc rq slim reply)) \<notin> toSet lc (rq_previouslySelected rq)"
    using chooseReplacement_key [of slim lc rq reply] ne unfolding slim_def by blast
  have "hd slim \<in> set slim" using ne by simp
  then have hk: "idKey lc (hd slim) \<notin> toSet lc (rq_avoidIds rq) \<and>
           idKey lc (hd slim) \<notin> toSet lc (rq_previouslySelected rq)"
    using replaceSlim_keys unfolding slim_def by blast
  show "idKey lc rid \<notin> toSet lc (rq_avoidIds rq)" using k c hk by metis
  show "idKey lc rid \<notin> toSet lc (rq_previouslySelected rq)" using k c hk by metis
  show "\<forall>s\<in>set sugg. idKey lc s \<notin> toSet lc (rq_avoidIds rq) \<and>
                     idKey lc s \<notin> toSet lc (rq_previouslySelected rq)"
    unfolding sg using suggestionsOut_keys by blast
next
  assume a: "reply = Some out \<and>
    (matchKey lc (fst out) \<in> toSet lc (rq_avoidIds rq) \<or>
     matchKey lc (fst out) \<in> toSet lc (rq_previouslySelected rq))"
  then show "replaceRoute lc rq reply = replaceRoute lc rq None"
    using replaceRoute_excluded [of lc out rq] by simp
next
  assume a: "reply = Some out \<and>
    (matchKey lc (fst out) \<in> toSet lc (rq_avoidIds rq) \<or>
     matchKey lc (fst out) \<in> toSet lc (rq_previouslySelected rq))"
  assume h: "replaceRoute lc rq reply = Inr (rid, sugg)"
  define slim where "slim = replaceSlim lc rq"
  from replaceRoute_Inr [OF h] obtain tr where
    ne: "slim \<noteq> []" and rid: "rid = getId tr" and
    res: "resolveId lc (rq_workingSet rq) (fst (chooseReplacement lc rq slim reply)) = Some tr \<or>
          resolveId lc (rq_workingSet rq) (hd slim) = Some tr"
    unfolding slim_def by blast
  have na: "\<not> agentAccepted lc (toSet lc (rq_avoidIds rq)) (toSet lc (rq_previouslySelected rq)) reply"
    using a chooseReplacement_excluded(2) [of lc out rq] by simp
  have m1: "fst (chooseReplacement lc rq slim reply) \<in> set slim"
    using chooseReplacement_fallback_mem [OF na ne] .
  have m2: "hd slim \<in> set slim" using ne by simp
  obtain i where i: "i \<in> set slim" "resolveId lc (rq_workingSet rq) i = Some tr"
    using res m1 m2 by blast
  have "getId tr = i"
    using replaceSlim_resolves [of i lc rq] i unfolding slim_def by auto
  then show r: "rid \<in> set (replaceSlim lc rq)" using i(1) rid unfolding slim_def by simp
  from replaceSlim_from_pool [OF r] replacePool_notExcluded
  show "\<exists>t\<in>set (replacePool lc rq). rid = getId t \<and>
            notExcluded lc (toSet lc (rq_avoidIds rq)) (toSet lc (rq_previouslySelected rq)) t"
    by blast
qed

theorem replacement_never_excluded_witness:
  "replaceRoute lowerASCII scenarioD (Some (''a.mp3'', [''b.mp3'', ''c.mp3''])) =
     Inr (Some ''c.mp3'', [Some ''d.mp3'', Some ''e.mp3'']) \<and>
   matchKey lowerASCII ''a.mp3'' \<in> toSet lowerASCII (rq_avoidIds scenarioD) \<and>
   idKey lowerASCII (Some ''c.mp3'') \<notin> toSet lowerASCII (rq_avoidIds scenarioD) \<and>
   idKey lowerASCII (Some ''c.mp3'') \<notin> toSet lowerASCII (rq_previouslySelected scenarioD) \<and>
   idKey lowerASCII (Some ''d.mp3'') \<notin> toSet lowerASCII (rq_avoidIds scenarioD) \<and>
   idKey lowerASCII (Some ''d.mp3'') \<notin> toSet lowerASCII (rq_previouslySelected scenarioD) \<and>
   idKey lowerASCII (Some ''e.mp3'') \<notin> toSet lowerASCII (rq_avoidIds scenarioD) \<and>
   idKey lowerASCII (Some ''e.mp3'') \<notin> toSet lowerASCII (rq_previouslySelected scenarioD) \<and>
   replaceRoute lowerASCII scenarioD (Some (''a.mp3'', [''b.mp3'', ''c.mp3''])) = replaceRoute lowerASCII scenarioD None \<and>
   Some ''c.mp3'' \<in> set (replaceSlim lowerASCII scenarioD)"
proof -
  have r: "replaceRoute lowerASCII scenarioD (Some (''a.mp3'', [''b.mp3'', ''c.mp3''])) =
     Inr (Some ''c.mp3'', [Some ''d.mp3'', Some ''e.mp3''])"
    by code_simp
  have m: "matchKey lowerASCII (fst (''a.mp3'', [''b.mp3'', ''c.mp3''])) \<in> toSet lowerASCII (rq_avoidIds scenarioD)"
    by code_simp
  show ?thesis
    using replacement_never_excluded [of lowerASCII scenarioD "Some (''a.mp3'', [''b.mp3'', ''c.mp3''])"
        "Some ''c.mp3''" "[Some ''d.mp3'', Some ''e.mp3'']" "(''a.mp3'', [''b.mp3'', ''c.mp3''])"] r m
    by simp
qed


end
